theory Spec2Isabelle
  imports Complex_Main
begin

text \<open>
  A shallow embedding of \<open>code_search_engine.py\<close>: the LRU result cache, the metrics
  tracker, the chunking of a file into snippets, the persistence of the index and the
  cache-first \<open>search\<close>. The embedding model, the FAISS index, \<open>hashlib.md5\<close> and the
  clock are collaborators outside the repository; they enter as function parameters or
  as fields holding functions. A float (a latency, a distance, a score) is modelled by
  the real number it denotes, and every float operation of the source is the exact
  operation followed by rounding to the nearest float, a tie going to the even
  neighbour: to binary64 for Python's \<open>float\<close>, to binary32 for \<open>numpy.float32\<close>.
  Infinities, NaN and overflow have no image in the model.
\<close>

section \<open>The result cache: class LRUCache\<close>

text \<open>
  Python's \<open>OrderedDict\<close> is modelled as an association list in iteration order: the
  head is the oldest position, the last element the most recent one. The three
  \<open>OrderedDict\<close> operations that \<open>LRUCache\<close> uses are \<open>move_to_end(key)\<close>,
  \<open>d[key] = value\<close> and \<open>popitem(last=False)\<close>.
\<close>

type_synonym ('k, 'v) ordered_dict = "('k \<times> 'v) list"

definition od_keys :: "('k, 'v) ordered_dict \<Rightarrow> 'k list" where
  "od_keys d = map fst d"

text \<open>\<open>move_to_end\<close> raises \<open>KeyError\<close> on a missing key; both callers test
  \<open>key in self.cache\<close> first, so the missing case (left unchanged here) is never run.\<close>

definition od_move_to_end :: "'k \<Rightarrow> ('k, 'v) ordered_dict \<Rightarrow> ('k, 'v) ordered_dict" where
  "od_move_to_end k d =
     (case map_of d k of
        None \<Rightarrow> d
      | Some v \<Rightarrow> filter (\<lambda>kv. fst kv \<noteq> k) d @ [(k, v)])"

text \<open>\<open>d[key] = value\<close>: an existing key keeps its position and takes the new value,
  a new key is appended at the end.\<close>

fun od_setitem :: "'k \<Rightarrow> 'v \<Rightarrow> ('k, 'v) ordered_dict \<Rightarrow> ('k, 'v) ordered_dict" where
  "od_setitem k v [] = [(k, v)]"
| "od_setitem k v (kv # d) = (if fst kv = k then (k, v) # d else kv # od_setitem k v d)"

text \<open>\<open>popitem(last=False)\<close> removes the head. On an empty dictionary Python raises
  \<open>KeyError\<close>; \<open>put\<close> calls it only when \<open>len(self.cache) > self.capacity\<close>, hence on a
  dictionary with at least one entry.\<close>

fun od_popitem_first :: "('k, 'v) ordered_dict \<Rightarrow> ('k, 'v) ordered_dict" where
  "od_popitem_first [] = []"
| "od_popitem_first (kv # d) = d"

text \<open>The capacity is a number of entries (the engine constructs the cache with 1000).\<close>

record ('k, 'v) LRUCache =
  cache :: "('k, 'v) ordered_dict"
  capacity :: nat
  hits :: nat
  misses :: nat

definition LRUCache_init :: "nat \<Rightarrow> ('k, 'v) LRUCache" where
  "LRUCache_init c = \<lparr>cache = [], capacity = c, hits = 0, misses = 0\<rparr>"

definition get :: "'k \<Rightarrow> ('k, 'v) LRUCache \<Rightarrow> 'v option \<times> ('k, 'v) LRUCache" where
  "get key self =
     (case map_of (cache self) key of
        Some v \<Rightarrow> (Some v, self\<lparr>hits := hits self + 1, cache := od_move_to_end key (cache self)\<rparr>)
      | None \<Rightarrow> (None, self\<lparr>misses := misses self + 1\<rparr>))"

definition put :: "'k \<Rightarrow> 'v \<Rightarrow> ('k, 'v) LRUCache \<Rightarrow> ('k, 'v) LRUCache" where
  "put key value self =
     (let d1 = (if key \<in> set (od_keys (cache self)) then od_move_to_end key (cache self)
                else cache self);
          d2 = od_setitem key value d1;
          d3 = (if length d2 > capacity self then od_popitem_first d2 else d2)
      in self\<lparr>cache := d3\<rparr>)"

text \<open>Sequences of cache operations, run in order.\<close>

datatype ('k, 'v) cache_op = Get 'k | Put 'k 'v

fun op_key :: "('k, 'v) cache_op \<Rightarrow> 'k" where
  "op_key (Get k) = k"
| "op_key (Put k v) = k"

fun cache_step :: "('k, 'v) LRUCache \<Rightarrow> ('k, 'v) cache_op \<Rightarrow> ('k, 'v) LRUCache" where
  "cache_step c (Get k) = snd (get k c)"
| "cache_step c (Put k v) = put k v c"

definition run_cache_ops :: "('k, 'v) LRUCache \<Rightarrow> ('k, 'v) cache_op list \<Rightarrow> ('k, 'v) LRUCache" where
  "run_cache_ops c ops = foldl cache_step c ops"

text \<open>The position (counted from 1) of the last operation of a trace that names a key;
  0 when no operation names it. This is the time of the key's last use.\<close>

definition last_use :: "('k, 'v) cache_op list \<Rightarrow> 'k \<Rightarrow> nat" where
  "last_use ops k = length (dropWhile (\<lambda>x. op_key x \<noteq> k) (rev ops))"



section \<open>Python helpers\<close>

datatype error = IndexError | KeyError string | TypeError | ModelError | FaissError

text \<open>\<open>xs[i]\<close> on a list: a negative index counts from the end, and an index outside
  \<open>-len(xs) .. len(xs) - 1\<close> raises \<open>IndexError\<close>.\<close>

definition py_getitem :: "'a list \<Rightarrow> int \<Rightarrow> error + 'a" where
  "py_getitem xs i =
     (if 0 \<le> i \<and> i < int (length xs) then Inr (xs ! nat i)
      else if i < 0 \<and> - int (length xs) \<le> i then Inr (xs ! nat (int (length xs) + i))
      else Inl IndexError)"

text \<open>\<open>xs[-n:]\<close> for a positive \<open>n\<close>: the last \<open>n\<close> elements, or all of them when the
  list is shorter.\<close>

definition py_last_n :: "nat \<Rightarrow> 'a list \<Rightarrow> 'a list" where
  "py_last_n n xs = drop (length xs - n) xs"

text \<open>Rounding a real to the nearest integer, a tie going to the even neighbour.\<close>

definition round_half_even :: "real \<Rightarrow> int" where
  "round_half_even x =
     (let f = \<lfloor>x\<rfloor>; d = x - of_int f
      in if d < 1 / 2 then f else if 1 / 2 < d then f + 1 else if even f then f else f + 1)"

text \<open>The number of halvings that bring a real of at least 1 below 2, and the number of
  doublings that bring a positive real below 1 up to 1.\<close>

function halvings :: "real \<Rightarrow> nat" where
  "halvings x = (if x < 2 then 0 else Suc (halvings (x / 2)))"
  by pat_completeness auto
termination
proof (relation "measure (\<lambda>x. nat \<lfloor>x\<rfloor>)")
  show "wf (measure (\<lambda>x::real. nat \<lfloor>x\<rfloor>))" by simp
next
  fix x :: real
  assume "\<not> x < 2"
  then have "\<lfloor>x / 2\<rfloor> < \<lfloor>x\<rfloor>" by linarith
  moreover have "0 < \<lfloor>x\<rfloor>" using \<open>\<not> x < 2\<close> by linarith
  ultimately show "(x / 2, x) \<in> measure (\<lambda>x. nat \<lfloor>x\<rfloor>)" by simp
qed

function doublings :: "real \<Rightarrow> nat" where
  "doublings x = (if x \<le> 0 \<or> 1 \<le> x then 0 else Suc (doublings (x * 2)))"
  by pat_completeness auto
termination
proof (relation "measure (\<lambda>x. nat \<lfloor>1 / x\<rfloor>)")
  show "wf (measure (\<lambda>x::real. nat \<lfloor>1 / x\<rfloor>))" by simp
next
  fix x :: real
  assume a: "\<not> (x \<le> 0 \<or> 1 \<le> x)"
  then have x: "0 < x" "x < 1" by auto
  define y where "y = 1 / x"
  have "1 < y" using x by (simp add: y_def)
  have n: "1 \<le> \<lfloor>y\<rfloor>" using \<open>1 < y\<close> by linarith
  then have "(1::real) \<le> of_int \<lfloor>y\<rfloor>" by simp
  moreover have "y < of_int \<lfloor>y\<rfloor> + 1" by linarith
  ultimately have "y / 2 < of_int \<lfloor>y\<rfloor>" by linarith
  then have "\<lfloor>y / 2\<rfloor> < \<lfloor>y\<rfloor>" by (simp add: floor_less_iff)
  then have a1: "\<lfloor>1 / (x * 2)\<rfloor> < \<lfloor>1 / x\<rfloor>" by (simp add: y_def)
  have a2: "0 < \<lfloor>1 / x\<rfloor>" using n by (simp add: y_def)
  from a1 a2 show "(x * 2, x) \<in> measure (\<lambda>x. nat \<lfloor>1 / x\<rfloor>)" by simp
qed

text \<open>The exponent \<open>e\<close> of a positive real: \<open>2 powi e \<le> x < 2 powi (e + 1)\<close>, found by
  halving or doubling.\<close>

definition exponent :: "real \<Rightarrow> int" where
  "exponent x = (if 1 \<le> x then int (halvings x) else - int (doublings x))"

text \<open>Rounding to a binary float with \<open>p\<close> significant bits whose least exponent of the
  last place is \<open>emin\<close>: the multiples of \<open>2 powi q\<close> around \<open>x\<close> are the floats there.\<close>

definition round_to :: "nat \<Rightarrow> int \<Rightarrow> real \<Rightarrow> real" where
  "round_to p emin x =
     (if x = 0 then 0
      else (let q = max emin (exponent \<bar>x\<bar> - int p + 1)
            in of_int (round_half_even (x / 2 powi q)) * 2 powi q))"

definition float64 :: "real \<Rightarrow> real" where
  "float64 = round_to 53 (- 1074)"

definition float32 :: "real \<Rightarrow> real" where
  "float32 = round_to 24 (- 149)"

definition float32_max :: real where
  "float32_max = 340282346638528859811704183484516925440"

text \<open>\<open>round(x, 2)\<close> on a float: the exact value of \<open>x\<close> is rounded to two decimals, a tie
  going to the even neighbour, and the float nearest to that decimal is returned.\<close>

definition py_round2 :: "real \<Rightarrow> real" where
  "py_round2 x = float64 (of_int (round_half_even (x * 100)) / 100)"

text \<open>\<open>str(n)\<close> for an integer: its decimal digits, with a minus sign when negative.\<close>

definition digit_char :: "nat \<Rightarrow> char" where
  "digit_char d = char_of (48 + d)"

function str_nat :: "nat \<Rightarrow> string" where
  "str_nat n = (if n < 10 then [digit_char n] else str_nat (n div 10) @ [digit_char (n mod 10)])"
  by pat_completeness auto
termination
  by (relation "measure (\<lambda>n. n)") auto

definition str_int :: "int \<Rightarrow> string" where
  "str_int i = (if i < 0 then CHR ''-'' # str_nat (nat (- i)) else str_nat (nat i))"

text \<open>\<open>s.split('\n')\<close>, \<open>'\n'.join(lines)\<close> and \<open>s.strip()\<close>. Characters are code points
  below 256; the whitespace of \<open>str.strip\<close> in that range is listed in \<open>is_space\<close>.\<close>

definition newline :: char where
  "newline = CHR 0x0A"

fun split_nl :: "string \<Rightarrow> string list" where
  "split_nl [] = [[]]"
| "split_nl (c # cs) =
     (if c = newline then [] # split_nl cs
      else (case split_nl cs of [] \<Rightarrow> [[c]] | l # ls \<Rightarrow> (c # l) # ls))"




section \<open>The metrics tracker: class MetricsTracker\<close>

record query_record =
  query :: string
  time_ms :: real
  cached :: bool
  timestamp :: string

record MetricsTracker =
  total_queries :: nat
  total_search_time :: real
  queries_under_50ms :: nat
  queries_under_200ms :: nat
  query_history :: "query_record list"

definition MetricsTracker_init :: MetricsTracker where
  "MetricsTracker_init =
     \<lparr>total_queries = 0, total_search_time = 0, queries_under_50ms = 0,
      queries_under_200ms = 0, query_history = []\<rparr>"

text \<open>\<open>record_query\<close>; the value of \<open>datetime.now().isoformat()\<close> is the argument
  \<open>now\<close>. \<open>query_history.pop(0)\<close> runs on a list of more than 1000 records.\<close>

definition record_query :: "string \<Rightarrow> real \<Rightarrow> bool \<Rightarrow> string \<Rightarrow> MetricsTracker \<Rightarrow> MetricsTracker" where
  "record_query q search_time_ms from_cache now self =
     (let h = query_history self
            @ [\<lparr>query = q, time_ms = search_time_ms, cached = from_cache, timestamp = now\<rparr>]
      in \<lparr>total_queries = total_queries self + 1,
          total_search_time = float64 (total_search_time self + search_time_ms),
          queries_under_50ms =
            (if search_time_ms < 50 then queries_under_50ms self + 1 else queries_under_50ms self),
          queries_under_200ms =
            (if search_time_ms < 200 then queries_under_200ms self + 1 else queries_under_200ms self),
          query_history = (if length h > 1000 then tl h else h)\<rparr>)"

text \<open>The dictionary that \<open>get_stats\<close> returns; the keys \<open>total_queries\<close>,
  \<open>queries_under_50ms\<close> and \<open>queries_under_200ms\<close> carry the prefix \<open>stats_\<close> here.\<close>

record metrics_stats =
  stats_total_queries :: nat
  average_search_time_ms :: real
  stats_queries_under_50ms :: nat
  stats_queries_under_200ms :: nat
  sub_50ms_rate :: real
  sub_200ms_rate :: real
  recent_queries :: "query_record list"

definition get_stats :: "MetricsTracker \<Rightarrow> metrics_stats" where
  "get_stats self =
     (let avg_time = (if total_queries self > 0
                      then float64 (total_search_time self / float64 (real (total_queries self)))
                      else 0);
          sub_50_rate = (if total_queries self > 0
                      then float64 (float64 (real (queries_under_50ms self)
                                             / real (total_queries self)) * 100)
                      else 0);
          sub_200_rate = (if total_queries self > 0
                      then float64 (float64 (real (queries_under_200ms self)
                                              / real (total_queries self)) * 100)
                      else 0)
      in \<lparr>stats_total_queries = total_queries self,
          average_search_time_ms = py_round2 avg_time,
          stats_queries_under_50ms = queries_under_50ms self,
          stats_queries_under_200ms = queries_under_200ms self,
          sub_50ms_rate = py_round2 sub_50_rate,
          sub_200ms_rate = py_round2 sub_200_rate,
          recent_queries = py_last_n 10 (query_history self)\<rparr>)"

text \<open>A sequence of recorded queries: each is (query, latency, cached, timestamp).\<close>

type_synonym recorded = "string \<times> real \<times> bool \<times> string"

definition record_one :: "MetricsTracker \<Rightarrow> recorded \<Rightarrow> MetricsTracker" where
  "record_one m r = record_query (fst r) (fst (snd r)) (fst (snd (snd r))) (snd (snd (snd r))) m"

definition record_all :: "recorded list \<Rightarrow> MetricsTracker" where
  "record_all rs = foldl record_one MetricsTracker_init rs"

definition as_query_record :: "recorded \<Rightarrow> query_record" where
  "as_query_record r =
     \<lparr>query = fst r, time_ms = fst (snd r), cached = fst (snd (snd r)),
      timestamp = snd (snd (snd r))\<rparr>"

section \<open>Snippets and the chunking of a file\<close>

record code_snippet =
  "file" :: string
  repo :: string
  content :: string
  line_start :: int
  line_end :: int





section \<open>The engine: class CodeSearchEngine\<close>

text \<open>A result of \<open>search\<close> has the five fields of the snippet and \<open>similarity_score\<close>.\<close>

record search_result = code_snippet +
  similarity_score :: real

record cache_entry =
  results :: "search_result list"
  search_time :: real

text \<open>The collaborators. \<open>SentenceTransformer.encode\<close> maps a list of texts to a matrix,
  one row per text. A FAISS index is known by its \<open>search(matrix, k)\<close>, which returns the
  pair \<open>(distances, indices)\<close>, one row per query row. Either may raise.\<close>

type_synonym matrix = "real list list"
type_synonym encoder = "string list \<Rightarrow> error + matrix"
type_synonym faiss = "matrix \<Rightarrow> int \<Rightarrow> error + (real list list \<times> int list list)"

record CodeSearchEngine =
  model :: encoder
  code_snippets :: "code_snippet list"
  faiss_index :: "faiss option"
  engine_cache :: "(string, cache_entry) LRUCache"
  metrics :: MetricsTracker
  total_files_indexed :: int
  total_lines_indexed :: int
  total_repositories :: int

definition CodeSearchEngine_init :: "encoder \<Rightarrow> CodeSearchEngine" where
  "CodeSearchEngine_init m =
     \<lparr>model = m, code_snippets = [], faiss_index = None,
      engine_cache = LRUCache_init 1000, metrics = MetricsTracker_init,
      total_files_indexed = 0, total_lines_indexed = 0, total_repositories = 0\<rparr>"

text \<open>What one call of \<open>search\<close> reads from the clock: \<open>time.time()\<close> before and after
  the search proper, and \<open>datetime.now().isoformat()\<close> inside \<open>record_query\<close>.\<close>

record clock =
  time_start :: real
  time_end :: real
  now_iso :: string

text \<open>\<open>float(1 / (1 + distance))\<close>, where \<open>distance\<close> is a \<open>numpy.float32\<close>: NumPy keeps
  the Python integer 1 in the type of the other operand, so the sum and the quotient are
  float32 operations, and \<open>float\<close> converts the result without change. FAISS distances
  are squared norms, hence not negative, so the divisor is not zero.\<close>

definition similarity :: "real \<Rightarrow> real" where
  "similarity distance = float32 (1 / float32 (1 + distance))"

text \<open>The loop \<open>for idx, distance in zip(indices[0], distances[0])\<close>, with \<open>results\<close> as
  the accumulator. The test is \<open>idx < len(self.code_snippets)\<close> alone; the subscript
  \<open>self.code_snippets[idx]\<close> is Python's, so it may raise.\<close>

fun format_results ::
  "code_snippet list \<Rightarrow> (int \<times> real) list \<Rightarrow> search_result list \<Rightarrow> error + search_result list" where
  "format_results snippets [] acc = Inr acc"
| "format_results snippets ((idx, distance) # rest) acc =
     (if idx < int (length snippets) then
        (case py_getitem snippets idx of
           Inl e \<Rightarrow> Inl e
         | Inr snippet \<Rightarrow>
             format_results snippets rest
               (acc @ [\<lparr>file = file snippet, repo = repo snippet, content = content snippet,
                        line_start = line_start snippet, line_end = line_end snippet,
                        similarity_score = similarity distance\<rparr>]))
      else format_results snippets rest acc)"

text \<open>\<open>hashlib.md5(f"{query}:{top_k}".encode()).hexdigest()\<close>; the digest function is the
  parameter \<open>md5\<close>.\<close>

definition cache_key :: "(string \<Rightarrow> string) \<Rightarrow> string \<Rightarrow> int \<Rightarrow> string" where
  "cache_key md5 q top_k = md5 (q @ '':'' @ str_int top_k)"

text \<open>\<open>search\<close> returns the triple (results, search time, from cache) or raises, and
  leaves the engine in a new state in both cases.\<close>

type_synonym search_outcome = "error + (search_result list \<times> real \<times> bool)"

definition search ::
  "(string \<Rightarrow> string) \<Rightarrow> clock \<Rightarrow> string \<Rightarrow> int \<Rightarrow> CodeSearchEngine
     \<Rightarrow> search_outcome \<times> CodeSearchEngine" where
  "search md5 clk q top_k self =
     (case faiss_index self of
        None \<Rightarrow> (Inr ([], 0, False), self)
      | Some index \<Rightarrow>
          (let key = cache_key md5 q top_k;
               looked = get key (engine_cache self);
               self1 = self\<lparr>engine_cache := snd looked\<rparr>
           in case fst looked of
                Some cached_result \<Rightarrow>
                  (Inr (results cached_result, search_time cached_result, True),
                   self1\<lparr>metrics := record_query q (search_time cached_result) True (now_iso clk)
                                        (metrics self1)\<rparr>)
              | None \<Rightarrow>
                  (case model self1 [q] of
                     Inl e \<Rightarrow> (Inl e, self1)
                   | Inr query_embedding \<Rightarrow>
                       (case index query_embedding top_k of
                          Inl e \<Rightarrow> (Inl e, self1)
                        | Inr (distances, indices) \<Rightarrow>
                            (case py_getitem indices 0 of
                               Inl e \<Rightarrow> (Inl e, self1)
                             | Inr indices0 \<Rightarrow>
                            (case py_getitem distances 0 of
                               Inl e \<Rightarrow> (Inl e, self1)
                             | Inr distances0 \<Rightarrow>
                            (case format_results (code_snippets self1) (zip indices0 distances0) [] of
                               Inl e \<Rightarrow> (Inl e, self1)
                             | Inr rs \<Rightarrow>
                                 (let t = float64 (float64 (time_end clk - time_start clk) * 1000);
                                      self2 = self1\<lparr>engine_cache :=
                                                put key \<lparr>results = rs, search_time = t\<rparr>
                                                  (engine_cache self1)\<rparr>
                                  in (Inr (rs, t, False),
                                      self2\<lparr>metrics := record_query q t False (now_iso clk)
                                                           (metrics self2)\<rparr>)))))))))"

section \<open>Persistence: save_index and load_index\<close>

text \<open>A JSON document as \<open>json.dump\<close> writes it and \<open>json.load\<close> reads it back; the text
  between the two is the \<open>json\<close> library's. The directory \<open>index_dir\<close> holds the two
  files \<open>code.index\<close> and \<open>metadata.json\<close>, each present or not.\<close>

datatype json = JInt int | JStr string | JArr "json list" | JObj "(string \<times> json) list"

record index_dir =
  code_index :: "faiss option"
  metadata_json :: "json option"

definition json_of_snippet :: "code_snippet \<Rightarrow> json" where
  "json_of_snippet s =
     JObj [(''file'', JStr (file s)), (''repo'', JStr (repo s)), (''content'', JStr (content s)),
           (''line_start'', JInt (line_start s)), (''line_end'', JInt (line_end s))]"

text \<open>\<open>save_index\<close>: \<open>faiss.write_index\<close> needs an index and raises without one; then
  the metadata are written.\<close>

definition save_index :: "CodeSearchEngine \<Rightarrow> index_dir \<Rightarrow> (error + unit) \<times> index_dir" where
  "save_index self dir =
     (case faiss_index self of
        None \<Rightarrow> (Inl TypeError, dir)
      | Some index \<Rightarrow>
          (Inr (),
           dir\<lparr>code_index := Some index,
               metadata_json := Some (JObj
                 [(''code_snippets'', JArr (map json_of_snippet (code_snippets self))),
                  (''total_files'', JInt (total_files_indexed self)),
                  (''total_lines'', JInt (total_lines_indexed self)),
                  (''total_repositories'', JInt (total_repositories self))])\<rparr>))"

text \<open>Reading the document back. \<open>data[key]\<close> raises \<open>KeyError\<close> on a missing key.
  The engine's fields are typed here, so a value of another shape than the one
  \<open>save_index\<close> writes has no image and is reported as \<open>TypeError\<close>, where Python
  would store it unchecked.\<close>

definition json_getitem :: "json \<Rightarrow> string \<Rightarrow> error + json" where
  "json_getitem data k =
     (case data of
        JObj kvs \<Rightarrow> (case map_of kvs k of None \<Rightarrow> Inl (KeyError k) | Some v \<Rightarrow> Inr v)
      | _ \<Rightarrow> Inl TypeError)"

definition as_str :: "json \<Rightarrow> error + string" where
  "as_str j = (case j of JStr s \<Rightarrow> Inr s | _ \<Rightarrow> Inl TypeError)"

definition as_int :: "json \<Rightarrow> error + int" where
  "as_int j = (case j of JInt i \<Rightarrow> Inr i | _ \<Rightarrow> Inl TypeError)"

definition field_str :: "json \<Rightarrow> string \<Rightarrow> error + string" where
  "field_str j k = (case json_getitem j k of Inl e \<Rightarrow> Inl e | Inr v \<Rightarrow> as_str v)"

definition field_int :: "json \<Rightarrow> string \<Rightarrow> error + int" where
  "field_int j k = (case json_getitem j k of Inl e \<Rightarrow> Inl e | Inr v \<Rightarrow> as_int v)"

definition snippet_of_json :: "json \<Rightarrow> error + code_snippet" where
  "snippet_of_json j =
     (case field_str j ''file'' of Inl e \<Rightarrow> Inl e | Inr f \<Rightarrow>
      case field_str j ''repo'' of Inl e \<Rightarrow> Inl e | Inr r \<Rightarrow>
      case field_str j ''content'' of Inl e \<Rightarrow> Inl e | Inr c \<Rightarrow>
      case field_int j ''line_start'' of Inl e \<Rightarrow> Inl e | Inr ls \<Rightarrow>
      case field_int j ''line_end'' of Inl e \<Rightarrow> Inl e | Inr le \<Rightarrow>
        Inr \<lparr>file = f, repo = r, content = c, line_start = ls, line_end = le\<rparr>)"

fun snippets_of_json :: "json list \<Rightarrow> error + code_snippet list" where
  "snippets_of_json [] = Inr []"
| "snippets_of_json (j # js) =
     (case snippet_of_json j of
        Inl e \<Rightarrow> Inl e
      | Inr s \<Rightarrow> (case snippets_of_json js of Inl e \<Rightarrow> Inl e | Inr ss \<Rightarrow> Inr (s # ss)))"

definition field_snippets :: "json \<Rightarrow> string \<Rightarrow> error + code_snippet list" where
  "field_snippets j k =
     (case json_getitem j k of
        Inl e \<Rightarrow> Inl e
      | Inr (JArr js) \<Rightarrow> snippets_of_json js
      | Inr _ \<Rightarrow> Inl TypeError)"

text \<open>\<open>load_index\<close> returns \<open>False\<close> when a file is missing, otherwise assigns the index
  and then the four metadata fields in the order of the source; an exception leaves the
  assignments made before it.\<close>

definition load_index :: "CodeSearchEngine \<Rightarrow> index_dir \<Rightarrow> (error + bool) \<times> CodeSearchEngine" where
  "load_index self dir =
     (case (code_index dir, metadata_json dir) of
        (Some index, Some data) \<Rightarrow>
          (let self1 = self\<lparr>faiss_index := Some index\<rparr>
           in case field_snippets data ''code_snippets'' of Inl e \<Rightarrow> (Inl e, self1) | Inr ss \<Rightarrow>
             (let self2 = self1\<lparr>code_snippets := ss\<rparr>
              in case field_int data ''total_files'' of Inl e \<Rightarrow> (Inl e, self2) | Inr n_files \<Rightarrow>
                (let self3 = self2\<lparr>total_files_indexed := n_files\<rparr>
                 in case field_int data ''total_lines'' of Inl e \<Rightarrow> (Inl e, self3) | Inr n_lines \<Rightarrow>
                   (let self4 = self3\<lparr>total_lines_indexed := n_lines\<rparr>
                    in case field_int data ''total_repositories'' of Inl e \<Rightarrow> (Inl e, self4)
                       | Inr n_repos \<Rightarrow> (Inr True, self4\<lparr>total_repositories := n_repos\<rparr>)))))
      | _ \<Rightarrow> (Inr False, self))"

section \<open>A small engine for concrete runs\<close>

text \<open>One snippet, an encoder that maps every text to the vector \<open>[0]\<close>, and an index over
  that single vector asked for two neighbours: FAISS fills the missing second neighbour
  with the label \<open>-1\<close> and the largest float32 as its distance. The digest is replaced by
  the identity and the clock shows a quarter of a second between its two readings.\<close>

definition example_snippet :: code_snippet where
  "example_snippet =
     \<lparr>file = ''repo/a.py'', repo = ''repo'', content = ''x = 1'', line_start = 1, line_end = 1\<rparr>"

definition example_model :: encoder where
  "example_model texts = Inr (map (\<lambda>t. [0]) texts)"

definition example_index :: faiss where
  "example_index queries k =
     Inr (map (\<lambda>q. [0, 340282346638528859811704183484516925440]) queries,
          map (\<lambda>q. [0, - 1]) queries)"

definition example_engine :: CodeSearchEngine where
  "example_engine =
     (CodeSearchEngine_init example_model)
       \<lparr>code_snippets := [example_snippet], faiss_index := Some example_index,
        total_files_indexed := 1, total_lines_indexed := 1, total_repositories := 1\<rparr>"

definition example_digest :: "string \<Rightarrow> string" where
  "example_digest s = s"

definition example_clock :: clock where
  "example_clock = \<lparr>time_start = 1, time_end = 5 / 4, now_iso = ''2024-01-01T00:00:00''\<rparr>"

definition example_dir :: index_dir where
  "example_dir = \<lparr>code_index = None, metadata_json = None\<rparr>"

section \<open>Notions used in the statements and proofs\<close>

text \<open>Reading or writing a resident key moves it to the end of the key list; a new key is
  added at the end.\<close>

definition touch :: "'k \<Rightarrow> 'k list \<Rightarrow> 'k list" where
  "touch k ks = filter (\<lambda>x. x \<noteq> k) ks @ [k]"

text \<open>A key list is in the order of last use of a trace.\<close>

definition by_last_use :: "('k, 'v) cache_op list \<Rightarrow> 'k list \<Rightarrow> bool" where
  "by_last_use ops ks = sorted_wrt (\<lambda>a b. last_use ops a < last_use ops b) ks"

text \<open>The trace that inserts a list of key-value pairs.\<close>

definition puts :: "('k \<times> 'v) list \<Rightarrow> ('k, 'v) cache_op list" where
  "puts kvs = map (\<lambda>kv. Put (fst kv) (snd kv)) kvs"

text \<open>In a key list, \<open>k\<close> stands behind \<open>r\<close> whenever \<open>r\<close> is there.\<close>

definition behind :: "'k \<Rightarrow> 'k \<Rightarrow> 'k list \<Rightarrow> bool" where
  "behind r k ks = (r \<in> set ks \<longrightarrow> (\<exists>xs ys. ks = xs @ r # ys \<and> k \<in> set ys))"


text \<open>The latencies of a sequence of recorded queries, in order, and their sum as
  \<open>record_query\<close> accumulates it: from 0, one float addition per query.\<close>

definition latencies :: "recorded list \<Rightarrow> real list" where
  "latencies rs = map (\<lambda>r. fst (snd r)) rs"

definition float_sum :: "real list \<Rightarrow> real" where
  "float_sum ts = foldl (\<lambda>a t. float64 (a + t)) 0 ts"

section \<open>Proofs: rounding to a float\<close>


declare str_nat.simps [simp del]

declare halvings.simps [simp del]

declare doublings.simps [simp del]

subsection \<open>The exponent\<close>

lemma halvings_bounds:
  "1 \<le> x \<Longrightarrow> 2 ^ halvings x \<le> x \<and> x < 2 ^ Suc (halvings x)"
proof (induction x rule: halvings.induct)
  case (1 x)
  show ?case
  proof (cases "x < 2")
    case True
    with "1.prems" show ?thesis by (simp add: halvings.simps [of x])
  next
    case False
    then have "1 \<le> x / 2" by simp
    with "1.IH" [OF False] have "2 ^ halvings (x / 2) \<le> x / 2 \<and> x / 2 < 2 ^ Suc (halvings (x / 2))"
      by blast
    with False show ?thesis by (simp add: halvings.simps [of x])
  qed
qed

lemma doublings_bounds:
  "0 < x \<Longrightarrow> x < 1 \<Longrightarrow> 1 \<le> x * 2 ^ doublings x \<and> x * 2 ^ doublings x < 2"
proof (induction x rule: doublings.induct)
  case (1 x)
  have c: "\<not> (x \<le> 0 \<or> 1 \<le> x)" using "1.prems" by simp
  show ?case
  proof (cases "x * 2 < 1")
    case True
    with "1.IH" [OF c] "1.prems" have "1 \<le> x * 2 * 2 ^ doublings (x * 2) \<and> x * 2 * 2 ^ doublings (x * 2) < 2"
      by simp
    with c show ?thesis by (simp add: doublings.simps [of x] mult.assoc)
  next
    case False
    then have "doublings (x * 2) = 0" by (simp add: doublings.simps [of "x * 2"])
    with c False "1.prems" show ?thesis by (simp add: doublings.simps [of x])
  qed
qed

lemma exponent_bounds:
  assumes "0 < x"
  shows "2 powi exponent x \<le> x \<and> x < 2 powi (exponent x + 1)"
proof (cases "1 \<le> x")
  case True
  then have e: "exponent x = int (halvings x)" by (simp add: exponent_def)
  have "exponent x + 1 = int (Suc (halvings x))" by (simp add: e)
  then have "2 powi (exponent x + 1) = (2::real) ^ Suc (halvings x)"
    by (simp only: power_int_of_nat)
  moreover have "2 powi exponent x = (2::real) ^ halvings x" by (simp add: e)
  ultimately show ?thesis using halvings_bounds [OF True] by simp
next
  case False
  then have x1: "x < 1" by simp
  let ?n = "doublings x"
  have e: "exponent x = - int ?n" using False by (simp add: exponent_def)
  have b: "1 \<le> x * 2 ^ ?n \<and> x * 2 ^ ?n < 2" using assms x1 by (rule doublings_bounds)
  have p: "2 powi exponent x = 1 / (2::real) ^ ?n"
    by (simp add: e power_int_minus_divide)
  have "(2::real) powi (1 + (- int ?n)) = 2 powi 1 * 2 powi (- int ?n)"
    by (rule power_int_add) simp
  moreover have "exponent x + 1 = 1 + (- int ?n)" by (simp add: e)
  ultimately have "2 powi (exponent x + 1) = (2::real) powi 1 * 2 powi (- int ?n)"
    by simp
  then have p1: "2 powi (exponent x + 1) = 2 / (2::real) ^ ?n"
    by (simp add: power_int_minus_divide)
  have z: "(0::real) < 2 ^ ?n" by simp
  from b z show ?thesis unfolding p p1 by (simp add: field_simps)
qed

lemma exponent_mono:
  assumes "0 < x" and "x \<le> y"
  shows "exponent x \<le> exponent y"
proof (rule ccontr)
  assume "\<not> exponent x \<le> exponent y"
  then have "exponent y + 1 \<le> exponent x" by simp
  then have "(2::real) powi (exponent y + 1) \<le> 2 powi exponent x"
    by (intro power_int_increasing) simp_all
  moreover have "y < 2 powi (exponent y + 1)" using exponent_bounds [of y] assms by simp
  moreover have "2 powi exponent x \<le> x" using exponent_bounds [OF assms(1)] by simp
  ultimately show False using assms(2) by linarith
qed

subsection \<open>Rounding to the nearest integer\<close>

lemma round_half_even_cases:
  "round_half_even x = \<lfloor>x\<rfloor> \<and> x - of_int \<lfloor>x\<rfloor> \<le> 1 / 2
   \<or> round_half_even x = \<lfloor>x\<rfloor> + 1 \<and> 1 / 2 \<le> x - of_int \<lfloor>x\<rfloor>"
  by (auto simp: round_half_even_def Let_def)

lemma round_half_even_of_int: "round_half_even (of_int n) = n"
  by (simp add: round_half_even_def)

lemma round_half_even_mono:
  assumes "a \<le> b"
  shows "round_half_even a \<le> round_half_even b"
proof (cases "\<lfloor>a\<rfloor> = \<lfloor>b\<rfloor>")
  case True
  then have "a - of_int \<lfloor>a\<rfloor> \<le> b - of_int \<lfloor>b\<rfloor>" using assms by simp
  with True show ?thesis
    by (auto simp: round_half_even_def Let_def)
next
  case False
  have "\<lfloor>a\<rfloor> \<le> \<lfloor>b\<rfloor>" using assms by (rule floor_mono)
  with False have "\<lfloor>a\<rfloor> + 1 \<le> \<lfloor>b\<rfloor>" by simp
  moreover have "round_half_even a \<le> \<lfloor>a\<rfloor> + 1"
    using round_half_even_cases [of a] by auto
  moreover have "\<lfloor>b\<rfloor> \<le> round_half_even b"
    using round_half_even_cases [of b] by auto
  ultimately show ?thesis by linarith
qed

subsection \<open>Rounding to a float is monotone\<close>

lemma round_to_mono:
  assumes "0 < x" and "x \<le> y" and "0 < p"
  shows "round_to p emin x \<le> round_to p emin y"
proof -
  have y: "0 < y" using assms by simp
  define ex where "ex = exponent x"
  define ey where "ey = exponent y"
  define qx where "qx = max emin (ex - int p + 1)"
  define qy where "qy = max emin (ey - int p + 1)"
  have rx: "round_to p emin x = of_int (round_half_even (x / 2 powi qx)) * 2 powi qx"
    using assms(1) by (simp add: round_to_def Let_def qx_def ex_def)
  have ry: "round_to p emin y = of_int (round_half_even (y / 2 powi qy)) * 2 powi qy"
    using y by (simp add: round_to_def Let_def qy_def ey_def)
  have e: "ex \<le> ey" unfolding ex_def ey_def using assms(1,2) by (rule exponent_mono)
  then have q: "qx \<le> qy" by (simp add: qx_def qy_def)
  have pos: "\<And>k. (0::real) < 2 powi k" by (simp add: power_int_def)
  show ?thesis
  proof (cases "qx = qy")
    case True
    have "x / 2 powi qy \<le> y / 2 powi qy"
      using assms(2) pos [of qy] by (simp add: divide_right_mono)
    then have "round_half_even (x / 2 powi qy) \<le> round_half_even (y / 2 powi qy)"
      by (rule round_half_even_mono)
    then have "(of_int (round_half_even (x / 2 powi qy)) :: real) \<le> of_int (round_half_even (y / 2 powi qy))"
      by simp
    then show ?thesis unfolding rx ry True using pos [of qy] by (simp add: mult_right_mono)
  next
    case False
    with q have lt: "qx < qy" by simp
    then have qy': "qy = ey - int p + 1" by (auto simp: qx_def qy_def max_def split: if_splits)
    have "ex - int p + 1 \<le> qx" by (simp add: qx_def)
    with lt qy' have exey: "ex + 1 \<le> ey" by simp
    text \<open>the larger number rounds to at least \<open>2 powi ey\<close>\<close>
    have "2 powi ey \<le> y" using exponent_bounds [OF y] by (simp add: ey_def)
    then have "2 powi ey / 2 powi qy \<le> y / 2 powi qy"
      using pos [of qy] by (simp add: divide_right_mono)
    moreover have "(2::real) powi ey / 2 powi qy = 2 powi (ey - qy)"
      by (simp add: power_int_diff)
    moreover have "ey - qy = int (p - 1)" using assms(3) by (simp add: qy')
    ultimately have "of_int (2 ^ (p - 1)) \<le> y / 2 powi qy" by simp
    then have "round_half_even (of_int (2 ^ (p - 1))) \<le> round_half_even (y / 2 powi qy)"
      by (rule round_half_even_mono)
    then have "(2::int) ^ (p - 1) \<le> round_half_even (y / 2 powi qy)"
      by (simp only: round_half_even_of_int)
    then have "(of_int (2 ^ (p - 1)) :: real) \<le> of_int (round_half_even (y / 2 powi qy))"
      by (simp only: of_int_le_iff)
    then have "of_int (2 ^ (p - 1)) * 2 powi qy \<le> round_to p emin y"
      unfolding ry using pos [of qy] by (simp add: mult_right_mono)
    moreover have "(of_int (2 ^ (p - 1)) :: real) * 2 powi qy = 2 powi ey"
    proof -
      have "(of_int (2 ^ (p - 1)) :: real) = 2 powi (ey - qy)"
        using \<open>ey - qy = int (p - 1)\<close> by simp
      then show ?thesis by (simp add: power_int_diff)
    qed
    ultimately have lower: "2 powi ey \<le> round_to p emin y" by simp
    text \<open>the smaller number rounds to at most \<open>2 powi ey\<close>\<close>
    have "x < 2 powi (ex + 1)" using exponent_bounds [OF assms(1)] by (simp add: ex_def)
    moreover have "(2::real) powi (ex + 1) \<le> 2 powi ey"
      using exey by (intro power_int_increasing) simp_all
    ultimately have "x \<le> 2 powi ey" by simp
    then have "x / 2 powi qx \<le> 2 powi ey / 2 powi qx"
      using pos [of qx] by (simp add: divide_right_mono)
    moreover have "(2::real) powi ey / 2 powi qx = 2 powi (ey - qx)"
      by (simp add: power_int_diff)
    moreover have nn: "0 \<le> ey - qx" using lt qy' by simp
    then have "(2::real) powi (ey - qx) = of_int (2 ^ nat (ey - qx))"
      by (simp add: power_int_def)
    ultimately have "x / 2 powi qx \<le> of_int (2 ^ nat (ey - qx))" by simp
    then have "round_half_even (x / 2 powi qx) \<le> round_half_even (of_int (2 ^ nat (ey - qx)))"
      by (rule round_half_even_mono)
    then have "round_half_even (x / 2 powi qx) \<le> 2 ^ nat (ey - qx)"
      by (simp only: round_half_even_of_int)
    then have "(of_int (round_half_even (x / 2 powi qx)) :: real) \<le> of_int (2 ^ nat (ey - qx))"
      by (simp only: of_int_le_iff)
    then have "round_to p emin x \<le> of_int (2 ^ nat (ey - qx)) * 2 powi qx"
      unfolding rx using pos [of qx] by (simp add: mult_right_mono)
    moreover have "(of_int (2 ^ nat (ey - qx)) :: real) * 2 powi qx = 2 powi ey"
    proof -
      have "(of_int (2 ^ nat (ey - qx)) :: real) = 2 powi (ey - qx)"
        using nn by (simp add: power_int_def)
      then show ?thesis by (simp add: power_int_diff)
    qed
    ultimately have "round_to p emin x \<le> 2 powi ey" by simp
    with lower show ?thesis by linarith
  qed
qed

section \<open>Proofs: the result cache\<close>

subsection \<open>Keys of the ordered dictionary\<close>

lemma map_of_None_keys: "map_of d k = None \<longleftrightarrow> k \<notin> set (od_keys d)"
  by (simp add: od_keys_def map_of_eq_None_iff)

lemma keys_move_to_end:
  "k \<in> set (od_keys d) \<Longrightarrow> od_keys (od_move_to_end k d) = filter (\<lambda>x. x \<noteq> k) (od_keys d) @ [k]"
proof -
  assume "k \<in> set (od_keys d)"
  then obtain v where v: "map_of d k = Some v"
    using map_of_None_keys [of d k] by (cases "map_of d k") auto
  have "map fst (filter (\<lambda>kv. fst kv \<noteq> k) d) = filter (\<lambda>x. x \<noteq> k) (map fst d)"
    by (induction d) auto
  with v show ?thesis by (simp add: od_move_to_end_def od_keys_def)
qed

lemma keys_setitem:
  "od_keys (od_setitem k v d) = (if k \<in> set (od_keys d) then od_keys d else od_keys d @ [k])"
  by (induction d) (auto simp: od_keys_def)

lemma keys_popitem_first: "od_keys (od_popitem_first d) = tl (od_keys d)"
  by (cases d) (simp_all add: od_keys_def)

lemma length_keys: "length (od_keys d) = length d"
  by (simp add: od_keys_def)

text \<open>The key list after \<open>get\<close> and after \<open>put\<close>.\<close>

lemma keys_get:
  "od_keys (cache (snd (get k c))) =
     (if k \<in> set (od_keys (cache c)) then filter (\<lambda>x. x \<noteq> k) (od_keys (cache c)) @ [k]
      else od_keys (cache c))"
proof (cases "map_of (cache c) k")
  case None
  then show ?thesis using map_of_None_keys [of "cache c" k] by (simp add: get_def)
next
  case (Some v)
  then have "k \<in> set (od_keys (cache c))" using map_of_None_keys [of "cache c" k] by auto
  with Some show ?thesis by (simp add: get_def keys_move_to_end)
qed

lemma keys_put:
  "od_keys (cache (put k v c)) =
     (let ks = touch k (od_keys (cache c))
      in if length ks > capacity c then tl ks else ks)"
proof (cases "k \<in> set (od_keys (cache c))")
  case True
  then have "k \<in> set (od_keys (od_move_to_end k (cache c)))"
    by (simp add: keys_move_to_end)
  with True show ?thesis
    by (simp add: put_def Let_def keys_setitem keys_popitem_first keys_move_to_end touch_def
        flip: length_keys)
next
  case False
  then have "filter (\<lambda>x. x \<noteq> k) (od_keys (cache c)) = od_keys (cache c)"
    by (induction "od_keys (cache c)") (auto simp: filter_id_conv)
  with False show ?thesis
    by (simp add: put_def Let_def keys_setitem keys_popitem_first touch_def flip: length_keys)
qed


subsection \<open>Capacity\<close>

lemma length_touch_le: "length (touch k ks) \<le> Suc (length ks)"
  by (simp add: touch_def)

lemma length_touch_mem: "k \<in> set ks \<Longrightarrow> length (touch k ks) \<le> length ks"
  using length_filter_less [of k ks "\<lambda>x. x \<noteq> k"] by (simp add: touch_def)

lemma touch_new: "k \<notin> set ks \<Longrightarrow> touch k ks = ks @ [k]"
  by (auto simp: touch_def filter_id_conv)

lemma capacity_init [simp]: "capacity (LRUCache_init C) = C"
  by (simp add: LRUCache_init_def)

lemma capacity_step [simp]: "capacity (cache_step c x) = capacity c"
  by (cases x) (simp_all add: get_def put_def Let_def split: option.splits)

lemma capacity_run [simp]: "capacity (run_cache_ops c ops) = capacity c"
  unfolding run_cache_ops_def by (induction ops arbitrary: c) simp_all

lemma length_put_le:
  assumes "length (cache c) \<le> capacity c"
  shows "length (cache (put k v c)) \<le> capacity c"
proof -
  have "length (od_keys (cache (put k v c))) \<le> capacity c"
    using assms length_touch_le [of k "od_keys (cache c)"]
    by (auto simp: keys_put Let_def length_keys)
  then show ?thesis by (simp add: length_keys)
qed

lemma length_get_le:
  assumes "length (cache c) \<le> capacity c"
  shows "length (cache (snd (get k c))) \<le> capacity c"
proof -
  have "length (od_keys (cache (snd (get k c)))) \<le> capacity c"
    using assms length_touch_mem [of k "od_keys (cache c)"]
    by (auto simp: keys_get length_keys touch_def)
  then show ?thesis by (simp add: length_keys)
qed

lemma length_step_le:
  "length (cache c) \<le> capacity c \<Longrightarrow> length (cache (cache_step c x)) \<le> capacity c"
  by (cases x) (simp_all add: length_put_le length_get_le)

lemma run_snoc: "run_cache_ops c (ops @ [x]) = cache_step (run_cache_ops c ops) x"
  by (simp add: run_cache_ops_def)

lemma length_run_le:
  "length (cache c) \<le> capacity c \<Longrightarrow> length (cache (run_cache_ops c ops)) \<le> capacity c"
proof (induction ops rule: rev_induct)
  case Nil
  then show ?case by (simp add: run_cache_ops_def)
next
  case (snoc x ops)
  then show ?case
    using length_step_le [of "run_cache_ops c ops" x] by (simp add: run_snoc)
qed

lemma length_run_init_le: "length (cache (run_cache_ops (LRUCache_init C) ops)) \<le> C"
  using length_run_le [of "LRUCache_init C" ops] by (simp add: LRUCache_init_def)

subsection \<open>The dictionary order is the order of last use\<close>

lemma last_use_snoc:
  "last_use (ops @ [x]) k = (if op_key x = k then Suc (length ops) else last_use ops k)"
  by (simp add: last_use_def)

lemma last_use_le: "last_use ops k \<le> length ops"
  using length_dropWhile_le [of "\<lambda>x. op_key x \<noteq> k" "rev ops"] by (simp add: last_use_def)

lemma by_last_use_other:
  assumes "by_last_use ops ks" and "op_key x \<notin> set ks"
  shows "by_last_use (ops @ [x]) ks"
proof -
  have "\<forall>a \<in> set ks. last_use (ops @ [x]) a = last_use ops a"
    using assms(2) by (auto simp: last_use_snoc)
  then have "\<And>a b. a \<in> set ks \<Longrightarrow> b \<in> set ks \<Longrightarrow> last_use ops a < last_use ops b
      \<Longrightarrow> last_use (ops @ [x]) a < last_use (ops @ [x]) b"
    by simp
  then show ?thesis
    using assms(1) unfolding by_last_use_def by (rule sorted_wrt_mono_rel)
qed

lemma by_last_use_touch:
  assumes "by_last_use ops ks"
  shows "by_last_use (ops @ [x]) (touch (op_key x) ks)"
proof -
  let ?k = "op_key x"
  let ?fs = "filter (\<lambda>a. a \<noteq> ?k) ks"
  have "by_last_use ops ?fs"
    using assms by (simp add: by_last_use_def sorted_wrt_filter)
  moreover have "?k \<notin> set ?fs" by simp
  ultimately have "by_last_use (ops @ [x]) ?fs" by (rule by_last_use_other)
  moreover have "\<forall>a \<in> set ?fs. last_use (ops @ [x]) a < last_use (ops @ [x]) ?k"
  proof
    fix a assume "a \<in> set ?fs"
    then have "last_use (ops @ [x]) a = last_use ops a" by (auto simp: last_use_snoc)
    also have "\<dots> \<le> length ops" by (rule last_use_le)
    finally show "last_use (ops @ [x]) a < last_use (ops @ [x]) ?k"
      by (simp add: last_use_snoc)
  qed
  ultimately show ?thesis
    by (simp add: by_last_use_def touch_def sorted_wrt_append)
qed

lemma by_last_use_tl: "by_last_use ops ks \<Longrightarrow> by_last_use ops (tl ks)"
  by (cases ks) (simp_all add: by_last_use_def)

lemma by_last_use_run:
  "by_last_use ops (od_keys (cache (run_cache_ops (LRUCache_init C) ops)))"
proof (induction ops rule: rev_induct)
  case Nil
  show ?case by (simp add: run_cache_ops_def LRUCache_init_def by_last_use_def od_keys_def)
next
  case (snoc x ops)
  let ?c = "run_cache_ops (LRUCache_init C) ops"
  show ?case
  proof (cases x)
    case (Get k)
    show ?thesis
    proof (cases "k \<in> set (od_keys (cache ?c))")
      case True
      with by_last_use_touch [OF snoc, of x] Get show ?thesis
        by (simp add: run_snoc keys_get touch_def)
    next
      case False
      with by_last_use_other [OF snoc, of x] Get show ?thesis
        by (simp add: run_snoc keys_get)
    qed
  next
    case (Put k v)
    with by_last_use_touch [OF snoc, of x] show ?thesis
      by (simp add: run_snoc keys_put Let_def by_last_use_tl)
  qed
qed

lemma by_last_use_hd:
  assumes "by_last_use ops ks" and "r \<in> set (tl ks)"
  shows "last_use ops (hd ks) < last_use ops r"
  using assms by (cases ks) (auto simp: by_last_use_def)

lemma by_last_use_distinct: "by_last_use ops ks \<Longrightarrow> distinct ks"
  unfolding by_last_use_def by (induction ks) auto

lemma distinct_keys_run: "distinct (od_keys (cache (run_cache_ops (LRUCache_init C) ops)))"
  using by_last_use_run by (rule by_last_use_distinct)

subsection \<open>A put of a new key\<close>

lemma setitem_new: "k \<notin> set (od_keys d) \<Longrightarrow> od_setitem k v d = d @ [(k, v)]"
  by (induction d) (auto simp: od_keys_def)

lemma popitem_first_tl: "od_popitem_first d = tl d"
  by (cases d) simp_all

lemma put_new_full:
  assumes "k \<notin> set (od_keys (cache c))" and "length (cache c) = capacity c"
  shows "cache (put k v c) = tl (cache c @ [(k, v)])"
  using assms by (simp add: put_def Let_def setitem_new popitem_first_tl)

lemma put_new_evicts_lru:
  assumes "k \<notin> set (od_keys (cache (run_cache_ops (LRUCache_init C) ops)))"
    and "length (cache (run_cache_ops (LRUCache_init C) ops)) = C"
    and "r \<in> set (od_keys (cache (put k v (run_cache_ops (LRUCache_init C) ops))))"
  shows "last_use (ops @ [Put k v]) (hd (od_keys (cache (run_cache_ops (LRUCache_init C) ops)) @ [k]))
           < last_use (ops @ [Put k v]) r"
proof -
  let ?c = "run_cache_ops (LRUCache_init C) ops"
  have "by_last_use (ops @ [Put k v]) (touch k (od_keys (cache ?c)))"
    using by_last_use_touch [OF by_last_use_run, where x = "Put k v"] by simp
  then have s: "by_last_use (ops @ [Put k v]) (od_keys (cache ?c) @ [k])"
    using assms(1) by (simp add: touch_new)
  have "od_keys (cache (put k v ?c)) = tl (od_keys (cache ?c) @ [k])"
    using assms(1,2) by (simp add: keys_put Let_def touch_new length_keys)
  with assms(3) have "r \<in> set (tl (od_keys (cache ?c) @ [k]))" by simp
  with s show ?thesis by (rule by_last_use_hd)
qed

subsection \<open>Inserting distinct keys into an empty cache\<close>

lemma keys_puts_distinct:
  "distinct (map fst kvs) \<Longrightarrow>
   od_keys (cache (run_cache_ops (LRUCache_init C) (puts kvs))) = drop (length kvs - C) (map fst kvs)"
proof (induction kvs rule: rev_induct)
  case Nil
  show ?case by (simp add: puts_def run_cache_ops_def LRUCache_init_def od_keys_def)
next
  case (snoc kv kvs)
  let ?c = "run_cache_ops (LRUCache_init C) (puts kvs)"
  have ks: "od_keys (cache ?c) = drop (length kvs - C) (map fst kvs)"
    using snoc by simp
  have new: "fst kv \<notin> set (od_keys (cache ?c))"
    using snoc.prems ks by (auto dest: in_set_dropD)
  have step: "run_cache_ops (LRUCache_init C) (puts (kvs @ [kv])) = put (fst kv) (snd kv) ?c"
    by (simp add: puts_def run_cache_ops_def)
  show ?case
  proof (cases "length kvs < C")
    case True
    with ks new show ?thesis
      by (simp add: step keys_put Let_def touch_new)
  next
    case False
    then have "Suc (length kvs) - C = Suc (length kvs - C)" by simp
    moreover have "tl (drop (length kvs - C) (map fst kvs) @ [fst kv])
        = drop (Suc (length kvs - C)) (map fst kvs @ [fst kv])"
    proof -
      have "drop (Suc (length kvs - C)) (map fst kvs @ [fst kv])
          = tl (drop (length kvs - C) (map fst kvs @ [fst kv]))"
        by (simp only: drop_Suc drop_tl)
      also have "drop (length kvs - C) (map fst kvs @ [fst kv])
          = drop (length kvs - C) (map fst kvs) @ [fst kv]"
        by simp
      finally show ?thesis by simp
    qed
    ultimately show ?thesis using False ks new
      by (simp add: step keys_put Let_def touch_new)
  qed
qed

text \<open>
  Claim C4. Run any sequence of \<open>get\<close> and \<open>put\<close> on a cache built with capacity \<open>C\<close>.
  After a further \<open>put\<close> the cache holds at most \<open>C\<close> entries. When the key is new and the
  cache is full, the \<open>put\<close> removes exactly the head of the dictionary extended by the new
  entry, the size stays \<open>C\<close>, and the removed key was last used before every key that
  stays. Inserting \<open>C + 1\<close> distinct keys into the empty cache leaves \<open>C\<close> entries: all but
  the first key, which is the one used least recently.
\<close>

theorem LRUCache_put_capacity_lru:
  "length (cache (put k v (run_cache_ops (LRUCache_init C) ops))) \<le> C
   \<and> (k \<notin> set (od_keys (cache (run_cache_ops (LRUCache_init C) ops)))
        \<and> length (cache (run_cache_ops (LRUCache_init C) ops)) = C \<longrightarrow>
      cache (put k v (run_cache_ops (LRUCache_init C) ops))
        = tl (cache (run_cache_ops (LRUCache_init C) ops) @ [(k, v)])
      \<and> length (cache (put k v (run_cache_ops (LRUCache_init C) ops))) = C
      \<and> (\<forall>r \<in> set (od_keys (cache (put k v (run_cache_ops (LRUCache_init C) ops)))).
           last_use (ops @ [Put k v]) (hd (od_keys (cache (run_cache_ops (LRUCache_init C) ops)) @ [k]))
             < last_use (ops @ [Put k v]) r))
   \<and> (distinct (map fst kvs) \<and> length kvs = C + 1 \<longrightarrow>
      od_keys (cache (run_cache_ops (LRUCache_init C) (puts kvs))) = tl (map fst kvs)
      \<and> length (cache (run_cache_ops (LRUCache_init C) (puts kvs))) = C
      \<and> fst (hd kvs) \<notin> set (od_keys (cache (run_cache_ops (LRUCache_init C) (puts kvs))))
      \<and> (\<forall>r \<in> set (tl (map fst kvs)). last_use (puts kvs) (fst (hd kvs)) < last_use (puts kvs) r))"
proof (intro conjI impI)
  let ?c = "run_cache_ops (LRUCache_init C) ops"
  have cap: "capacity ?c = C" by (simp add: LRUCache_init_def)
  show "length (cache (put k v ?c)) \<le> C"
    using length_put_le [of ?c k v] length_run_init_le [of C ops] cap by simp
  {
    assume a: "k \<notin> set (od_keys (cache ?c)) \<and> length (cache ?c) = C"
    then show eq: "cache (put k v ?c) = tl (cache ?c @ [(k, v)])"
      using put_new_full [of k ?c v] cap by simp
    then show "length (cache (put k v ?c)) = C" using a by simp
    show "\<forall>r \<in> set (od_keys (cache (put k v ?c))).
           last_use (ops @ [Put k v]) (hd (od_keys (cache ?c) @ [k])) < last_use (ops @ [Put k v]) r"
    proof
      fix r assume "r \<in> set (od_keys (cache (put k v ?c)))"
      with a show "last_use (ops @ [Put k v]) (hd (od_keys (cache ?c) @ [k])) < last_use (ops @ [Put k v]) r"
        by (simp add: put_new_evicts_lru)
    qed
  }
  {
    assume b: "distinct (map fst kvs) \<and> length kvs = C + 1"
    let ?d = "run_cache_ops (LRUCache_init C) (puts kvs)"
    from b show ks: "od_keys (cache ?d) = tl (map fst kvs)"
      by (simp add: keys_puts_distinct drop_Suc)
    then have "length (od_keys (cache ?d)) = C" using b by simp
    then show "length (cache ?d) = C" by (simp add: length_keys)
    from b have ne: "kvs \<noteq> []" by auto
    then have "map fst kvs = fst (hd kvs) # tl (map fst kvs)" by (cases kvs) simp_all
    with b have "fst (hd kvs) \<notin> set (tl (map fst kvs))"
      by (metis distinct.simps(2))
    with ks show "fst (hd kvs) \<notin> set (od_keys (cache ?d))" by simp
    have "by_last_use (puts kvs) (od_keys (cache (run_cache_ops (LRUCache_init (Suc C)) (puts kvs))))"
      by (rule by_last_use_run)
    moreover have "od_keys (cache (run_cache_ops (LRUCache_init (Suc C)) (puts kvs))) = map fst kvs"
      using b by (simp add: keys_puts_distinct)
    ultimately have "by_last_use (puts kvs) (map fst kvs)" by simp
    then have "\<forall>r \<in> set (tl (map fst kvs)). last_use (puts kvs) (hd (map fst kvs)) < last_use (puts kvs) r"
      by (auto intro: by_last_use_hd)
    then show "\<forall>r \<in> set (tl (map fst kvs)). last_use (puts kvs) (fst (hd kvs)) < last_use (puts kvs) r"
      using ne by (simp add: hd_map)
  }
qed


theorem LRUCache_put_capacity_lru_witness:
  "(3::nat) \<notin> set (od_keys (cache (run_cache_ops (LRUCache_init 2) [Put 1 (10::nat), Put 2 20, Get 1])))
   \<and> length (cache (run_cache_ops (LRUCache_init 2) [Put (1::nat) (10::nat), Put 2 20, Get 1])) = 2
   \<and> cache (put 3 30 (run_cache_ops (LRUCache_init 2) [Put (1::nat) (10::nat), Put 2 20, Get 1]))
       = tl (cache (run_cache_ops (LRUCache_init 2) [Put (1::nat) (10::nat), Put 2 20, Get 1]) @ [(3, 30)])
   \<and> length (cache (put 3 30 (run_cache_ops (LRUCache_init 2) [Put (1::nat) (10::nat), Put 2 20, Get 1]))) = 2
   \<and> distinct (map fst [(1::nat, 10::nat), (2, 20), (3, 30)])
   \<and> length [(1::nat, 10::nat), (2, 20), (3, 30)] = 2 + 1
   \<and> od_keys (cache (run_cache_ops (LRUCache_init 2) (puts [(1::nat, 10::nat), (2, 20), (3, 30)])))
       = tl (map fst [(1::nat, 10::nat), (2, 20), (3, 30)])"
proof -
  let ?ops = "[Put (1::nat) (10::nat), Put 2 20, Get 1]"
  let ?c = "run_cache_ops (LRUCache_init 2) ?ops"
  let ?kvs = "[(1::nat, 10::nat), (2, 20), (3, 30)]"
  have h1: "(3::nat) \<notin> set (od_keys (cache ?c))" by code_simp
  have h2: "length (cache ?c) = 2" by code_simp
  have h3: "distinct (map fst ?kvs)" by simp
  have h4: "length ?kvs = 2 + 1" by simp
  note t = LRUCache_put_capacity_lru [of 3 30 2 ?ops ?kvs]
  from t h1 h2 have a: "cache (put 3 30 ?c) = tl (cache ?c @ [(3, 30)])" by blast
  from t h1 h2 have b: "length (cache (put 3 30 ?c)) = 2" by blast
  from t h3 h4 have c: "od_keys (cache (run_cache_ops (LRUCache_init 2) (puts ?kvs))) = tl (map fst ?kvs)"
    by blast
  from h1 h2 a b h3 h4 c show ?thesis by blast
qed

subsection \<open>A key that was read stays behind the keys that were not\<close>

lemma distinct_touch: "distinct ks \<Longrightarrow> distinct (touch h ks)"
  by (simp add: touch_def)

lemma behind_touch:
  assumes "behind r k ks" and "h \<noteq> r"
  shows "behind r k (touch h ks)"
proof (cases "r \<in> set ks")
  case False
  with assms(2) show ?thesis by (auto simp: behind_def touch_def)
next
  case True
  with assms(1) obtain xs ys where ks: "ks = xs @ r # ys" and k: "k \<in> set ys"
    by (auto simp: behind_def)
  let ?f = "filter (\<lambda>x. x \<noteq> h)"
  have "touch h ks = ?f xs @ r # (?f ys @ [h])"
    using assms(2) by (simp add: ks touch_def)
  moreover have "k \<in> set (?f ys @ [h])" using k by auto
  ultimately show ?thesis unfolding behind_def by blast
qed

lemma behind_tl:
  assumes "behind r k ks" and "distinct ks"
  shows "behind r k (tl ks)"
proof (cases "r \<in> set (tl ks)")
  case False
  then show ?thesis by (simp add: behind_def)
next
  case True
  then have "r \<in> set ks" by (cases ks) auto
  with assms(1) obtain xs ys where ks: "ks = xs @ r # ys" and k: "k \<in> set ys"
    by (auto simp: behind_def)
  show ?thesis
  proof (cases xs)
    case Nil
    with ks assms(2) True show ?thesis by simp
  next
    case (Cons x xs')
    with ks have "tl ks = xs' @ r # ys" by simp
    with k show ?thesis unfolding behind_def by blast
  qed
qed

lemma distinct_step:
  assumes "distinct (od_keys (cache c))"
  shows "distinct (od_keys (cache (cache_step c x)))"
proof (cases x)
  case (Get h)
  with assms distinct_touch [of "od_keys (cache c)" h] show ?thesis
    by (simp add: keys_get touch_def)
next
  case (Put h v)
  with assms distinct_touch [of "od_keys (cache c)" h] show ?thesis
    by (simp add: keys_put Let_def distinct_tl)
qed

lemma behind_step:
  assumes "behind r k (od_keys (cache c))" and "distinct (od_keys (cache c))"
    and "op_key x \<noteq> r"
  shows "behind r k (od_keys (cache (cache_step c x)))"
proof (cases x)
  case (Get h)
  with assms behind_touch [of r k "od_keys (cache c)" h] show ?thesis
    by (simp add: keys_get touch_def)
next
  case (Put h v)
  with assms behind_touch [of r k "od_keys (cache c)" h]
    behind_tl [of r k "touch h (od_keys (cache c))"] distinct_touch [of "od_keys (cache c)" h]
  show ?thesis
    by (simp add: keys_put Let_def)
qed

lemma behind_run:
  assumes "behind r k (od_keys (cache c))" and "distinct (od_keys (cache c))"
    and "r \<notin> op_key ` set ops"
  shows "behind r k (od_keys (cache (run_cache_ops c ops)))
       \<and> distinct (od_keys (cache (run_cache_ops c ops)))"
  using assms
proof (induction ops rule: rev_induct)
  case Nil
  then show ?case by (simp add: run_cache_ops_def)
next
  case (snoc x ops)
  then have ih: "behind r k (od_keys (cache (run_cache_ops c ops)))"
    "distinct (od_keys (cache (run_cache_ops c ops)))" and x: "op_key x \<noteq> r"
    by auto
  show ?case
    using behind_step [OF ih x] distinct_step [OF ih(2), of x] by (simp add: run_snoc)
qed

lemma behind_after_get:
  assumes "k \<in> set (od_keys (cache c))" and "r \<noteq> k"
  shows "behind r k (od_keys (cache (snd (get k c))))"
proof -
  have ks: "od_keys (cache (snd (get k c))) = filter (\<lambda>x. x \<noteq> k) (od_keys (cache c)) @ [k]"
    using assms(1) by (simp add: keys_get)
  show ?thesis
  proof (cases "r \<in> set (filter (\<lambda>x. x \<noteq> k) (od_keys (cache c)))")
    case False
    with assms(2) ks show ?thesis by (auto simp: behind_def)
  next
    case True
    then obtain xs ys where "filter (\<lambda>x. x \<noteq> k) (od_keys (cache c)) = xs @ r # ys"
      by (auto dest: split_list)
    then have "od_keys (cache (snd (get k c))) = xs @ r # (ys @ [k])" using ks by simp
    moreover have "k \<in> set (ys @ [k])" by simp
    ultimately show ?thesis unfolding behind_def by blast
  qed
qed

lemma behind_resident:
  assumes "behind r k ks" and "r \<in> set ks"
  shows "k \<in> set ks"
  using assms by (auto simp: behind_def)

lemma get_hit_value:
  "k \<in> set (od_keys (cache c)) \<Longrightarrow> fst (get k c) = map_of (cache c) k \<and> fst (get k c) \<noteq> None"
  using map_of_None_keys [of "cache c" k] by (auto simp: get_def split: option.splits)

lemma set_move_to_end:
  assumes "distinct (map fst d)" and "map_of d k = Some v"
  shows "set (od_move_to_end k d) = set d"
proof -
  have kv: "(k, v) \<in> set d" using assms(2) by (rule map_of_SomeD)
  have "\<And>w. (k, w) \<in> set d \<Longrightarrow> w = v"
  proof -
    fix w assume "(k, w) \<in> set d"
    with assms(1) have "map_of d k = Some w" by (rule map_of_is_SomeI)
    with assms(2) show "w = v" by simp
  qed
  then have u: "\<And>p. p \<in> set d \<Longrightarrow> fst p = k \<Longrightarrow> p = (k, v)"
    by (metis prod.collapse)
  have "set (filter (\<lambda>kv. fst kv \<noteq> k) d) \<union> {(k, v)} = set d"
  proof (rule set_eqI)
    fix p
    show "p \<in> set (filter (\<lambda>kv. fst kv \<noteq> k) d) \<union> {(k, v)} \<longleftrightarrow> p \<in> set d"
    proof (cases "fst p = k")
      case True
      have "p \<in> set d \<longleftrightarrow> p = (k, v)" using u [OF _ True] kv by blast
      with True show ?thesis by simp
    next
      case False
      then have "p \<noteq> (k, v)" by auto
      with False show ?thesis by simp
    qed
  qed
  then show ?thesis using assms(2) by (simp add: od_move_to_end_def)
qed

text \<open>
  Claim C5. A \<open>get\<close> on a resident key \<open>k\<close> writes nothing (the entries are the same set)
  and puts \<open>k\<close> last in the dictionary order. Whatever operations follow, a key \<open>r\<close> that
  was resident at the \<open>get\<close> and is not named by any of them is never still in the cache
  once \<open>k\<close> is gone: \<open>k\<close> is not evicted before \<open>r\<close>.
\<close>

theorem LRUCache_get_is_a_use:
  assumes "k \<in> set (od_keys (cache (run_cache_ops (LRUCache_init C) ops0)))"
  shows "last (od_keys (cache (snd (get k (run_cache_ops (LRUCache_init C) ops0))))) = k
    \<and> set (cache (snd (get k (run_cache_ops (LRUCache_init C) ops0))))
        = set (cache (run_cache_ops (LRUCache_init C) ops0))
    \<and> (\<forall>r. r \<in> set (od_keys (cache (run_cache_ops (LRUCache_init C) ops0))) \<and> r \<noteq> k
            \<and> r \<notin> op_key ` set ops1
            \<and> r \<in> set (od_keys (cache
                  (run_cache_ops (snd (get k (run_cache_ops (LRUCache_init C) ops0))) ops1)))
        \<longrightarrow> k \<in> set (od_keys (cache
                  (run_cache_ops (snd (get k (run_cache_ops (LRUCache_init C) ops0))) ops1))))"
proof -
  define c where "c = run_cache_ops (LRUCache_init C) ops0"
  define c1 where "c1 = snd (get k c)"
  have k: "k \<in> set (od_keys (cache c))" using assms by (simp add: c_def)
  have d: "distinct (od_keys (cache c))" unfolding c_def by (rule distinct_keys_run)
  have p1: "last (od_keys (cache c1)) = k"
    using k by (simp add: c1_def keys_get)
  obtain v where v: "map_of (cache c) k = Some v"
    using k map_of_None_keys [of "cache c" k] by (cases "map_of (cache c) k") auto
  have "cache c1 = od_move_to_end k (cache c)"
    using v by (simp add: c1_def get_def)
  moreover have "set (od_move_to_end k (cache c)) = set (cache c)"
    using d v by (intro set_move_to_end) (simp_all add: od_keys_def)
  ultimately have p2: "set (cache c1) = set (cache c)" by simp
  have d1: "distinct (od_keys (cache c1))"
    using distinct_step [OF d, of "Get k"] by (simp add: c1_def)
  have p3: "\<forall>r. r \<in> set (od_keys (cache c)) \<and> r \<noteq> k \<and> r \<notin> op_key ` set ops1
            \<and> r \<in> set (od_keys (cache (run_cache_ops c1 ops1)))
        \<longrightarrow> k \<in> set (od_keys (cache (run_cache_ops c1 ops1)))"
  proof (intro allI impI)
    fix r
    assume r: "r \<in> set (od_keys (cache c)) \<and> r \<noteq> k \<and> r \<notin> op_key ` set ops1
            \<and> r \<in> set (od_keys (cache (run_cache_ops c1 ops1)))"
    then have rk: "r \<noteq> k" and ro: "r \<notin> op_key ` set ops1"
      and rr: "r \<in> set (od_keys (cache (run_cache_ops c1 ops1)))" by blast+
    have "behind r k (od_keys (cache c1))"
      unfolding c1_def using k rk by (rule behind_after_get)
    then have "behind r k (od_keys (cache (run_cache_ops c1 ops1)))"
      using behind_run [OF _ d1 ro] by blast
    then show "k \<in> set (od_keys (cache (run_cache_ops c1 ops1)))"
      using rr by (rule behind_resident)
  qed
  from p1 p2 p3 show ?thesis unfolding c1_def c_def by blast
qed

theorem LRUCache_get_is_a_use_witness:
  "(1::nat) \<in> set (od_keys (cache (run_cache_ops (LRUCache_init 3) [Put 1 (10::nat), Put 2 20, Put 3 30])))
   \<and> (3::nat) \<in> set (od_keys (cache (run_cache_ops (LRUCache_init 3) [Put 1 (10::nat), Put 2 20, Put 3 30])))
   \<and> (3::nat) \<notin> op_key ` set [Put 4 (40::nat)]
   \<and> (3::nat) \<in> set (od_keys (cache (run_cache_ops
        (snd (get 1 (run_cache_ops (LRUCache_init 3) [Put 1 (10::nat), Put 2 20, Put 3 30])))
        [Put 4 40])))
   \<and> (1::nat) \<in> set (od_keys (cache (run_cache_ops
        (snd (get 1 (run_cache_ops (LRUCache_init 3) [Put 1 (10::nat), Put 2 20, Put 3 30])))
        [Put 4 40])))
   \<and> last (od_keys (cache (snd (get (1::nat)
        (run_cache_ops (LRUCache_init 3) [Put 1 (10::nat), Put 2 20, Put 3 30]))))) = 1"
proof -
  let ?ops0 = "[Put (1::nat) (10::nat), Put 2 20, Put 3 30]"
  let ?c = "run_cache_ops (LRUCache_init 3) ?ops0"
  let ?c2 = "run_cache_ops (snd (get 1 ?c)) [Put 4 40]"
  have h: "(1::nat) \<in> set (od_keys (cache ?c))" by code_simp
  have r1: "(3::nat) \<in> set (od_keys (cache ?c))" by code_simp
  have r2: "(3::nat) \<notin> op_key ` set [Put 4 (40::nat)]" by simp
  have r3: "(3::nat) \<in> set (od_keys (cache ?c2))" by code_simp
  have r4: "(3::nat) \<noteq> 1" by simp
  note t = LRUCache_get_is_a_use [OF h, of "[Put 4 40]"]
  from t have l: "last (od_keys (cache (snd (get 1 ?c)))) = 1" by (rule conjunct1)
  from t have "(3::nat) \<in> set (od_keys (cache ?c)) \<and> (3::nat) \<noteq> 1
       \<and> (3::nat) \<notin> op_key ` set [Put 4 (40::nat)] \<and> (3::nat) \<in> set (od_keys (cache ?c2))
       \<longrightarrow> (1::nat) \<in> set (od_keys (cache ?c2))"
    by blast
  with r1 r2 r3 r4 have k: "(1::nat) \<in> set (od_keys (cache ?c2))" by blast
  from h r1 r2 r3 k l show ?thesis by blast
qed

section \<open>Proofs: the metrics tracker\<close>

lemma window_snoc:
  "(if c < length (drop (length xs - c) xs @ [x]) then tl (drop (length xs - c) xs @ [x])
    else drop (length xs - c) xs @ [x]) = drop (length (xs @ [x]) - c) (xs @ [x])"
proof (cases "length xs < c")
  case True
  then show ?thesis by simp
next
  case False
  then have s: "Suc (length xs) - c = Suc (length xs - c)" by simp
  have "drop (Suc (length xs - c)) (xs @ [x]) = tl (drop (length xs - c) (xs @ [x]))"
    by (simp only: drop_Suc drop_tl)
  also have "drop (length xs - c) (xs @ [x]) = drop (length xs - c) xs @ [x]"
    by simp
  finally show ?thesis using False s by simp
qed

lemma record_all_snoc: "record_all (rs @ [r]) = record_one (record_all rs) r"
  by (simp add: record_all_def)

lemma history_record_one:
  "query_history (record_one m r)
     = (let h = query_history m @ [as_query_record r] in if length h > 1000 then tl h else h)"
  by (simp add: record_one_def record_query_def as_query_record_def Let_def)

lemma history_record_all:
  "query_history (record_all rs) = py_last_n 1000 (map as_query_record rs)"
proof (induction rs rule: rev_induct)
  case Nil
  show ?case by (simp add: record_all_def MetricsTracker_init_def py_last_n_def)
next
  case (snoc r rs)
  define xs where "xs = map as_query_record rs"
  define x where "x = as_query_record r"
  define H where "H = drop (length xs - 1000) xs"
  have "query_history (record_all rs) = H"
    using snoc by (simp add: py_last_n_def H_def xs_def)
  then have "query_history (record_all (rs @ [r]))
      = (if 1000 < length (H @ [x]) then tl (H @ [x]) else H @ [x])"
    by (simp add: record_all_snoc history_record_one Let_def x_def)
  also have "\<dots> = drop (length (xs @ [x]) - 1000) (xs @ [x])"
    unfolding H_def by (rule window_snoc)
  finally show ?case by (simp add: py_last_n_def xs_def x_def)
qed

lemma last_n_last_n:
  assumes "n \<le> c"
  shows "py_last_n n (py_last_n c xs) = py_last_n n xs"
proof -
  have "length xs - (length xs - c) - n + (length xs - c) = length xs - n"
    using assms by arith
  then show ?thesis by (simp add: py_last_n_def)
qed

lemma length_last_n: "length (py_last_n n xs) = min n (length xs)"
  by (auto simp: py_last_n_def min_def)

text \<open>
  Claim C10. For every tracker, \<open>recent_queries\<close> of \<open>get_stats\<close> is the last ten records
  of \<open>query_history\<close> (all of them when there are fewer), in order. After any sequence of
  recorded queries the history holds the last 1000 of them, and \<open>recent_queries\<close> the
  last ten.
\<close>

theorem get_stats_recent_queries:
  "recent_queries (get_stats m) = drop (length (query_history m) - 10) (query_history m)
   \<and> length (recent_queries (get_stats m)) = min 10 (length (query_history m))
   \<and> query_history (record_all rs) = drop (length rs - 1000) (map as_query_record rs)
   \<and> length (query_history (record_all rs)) = min 1000 (length rs)
   \<and> recent_queries (get_stats (record_all rs)) = drop (length rs - 10) (map as_query_record rs)
   \<and> length (recent_queries (get_stats (record_all rs))) = min 10 (length rs)"
proof -
  have r: "recent_queries (get_stats m) = py_last_n 10 (query_history m)" for m
    by (simp add: get_stats_def Let_def)
  have "recent_queries (get_stats (record_all rs)) = py_last_n 10 (map as_query_record rs)"
    by (simp add: r history_record_all last_n_last_n)
  then show ?thesis
    using r [of m] history_record_all [of rs]
    by (auto simp: py_last_n_def min_def)
qed

lemmas float_eval = float64_def float32_def round_to_def exponent_def halvings.simps
  doublings.simps round_half_even_def Let_def

lemma float64_zero: "float64 0 = 0"
  by (simp add: float64_def round_to_def)

lemma float_sum_snoc: "float_sum (ts @ [t]) = float64 (float_sum ts + t)"
  by (simp add: float_sum_def)

lemma latencies_snoc: "latencies (rs @ [r]) = latencies rs @ [fst (snd r)]"
  by (simp add: latencies_def)

lemma counters_record_all:
  "total_queries (record_all rs) = length rs
   \<and> total_search_time (record_all rs) = float_sum (latencies rs)
   \<and> queries_under_50ms (record_all rs) = length (filter (\<lambda>t. t < 50) (latencies rs))
   \<and> queries_under_200ms (record_all rs) = length (filter (\<lambda>t. t < 200) (latencies rs))"
proof (induction rs rule: rev_induct)
  case Nil
  show ?case by (simp add: record_all_def MetricsTracker_init_def latencies_def float_sum_def)
next
  case (snoc r rs)
  then show ?case
    by (simp add: record_all_snoc record_one_def record_query_def Let_def latencies_snoc
        float_sum_snoc)
qed

lemma py_round2_zero: "py_round2 0 = 0"
  by (simp add: py_round2_def round_half_even_def float64_zero)

lemma average_value:
  assumes "latencies rs = ts" and "float_sum ts = s" and "length rs = n" and "0 < n"
    and "float64 (real n) = d" and "float64 (s / d) = q" and "py_round2 q = r"
  shows "average_search_time_ms (get_stats (record_all rs)) = r
    \<and> float64 (float_sum (latencies rs) / float64 (real (length rs))) = q"
  using counters_record_all [of rs] assms by (simp add: get_stats_def Let_def)

text \<open>
  Claim C6, as the code has it. After the queries \<open>rs\<close>, with at least one of them,
  \<open>average_search_time_ms\<close> is the float sum that \<open>record_query\<close> has accumulated, divided
  in float arithmetic by the number of queries and then rounded to two decimals by
  \<open>round(avg_time, 2)\<close>; \<open>queries_under_50ms\<close> is the number of latencies strictly below
  50; and a tracker with \<open>total_queries = 0\<close> reports the average and both rates as 0.
\<close>

theorem get_stats_average_rounded:
  "(rs \<noteq> [] \<longrightarrow>
      average_search_time_ms (get_stats (record_all rs))
        = py_round2 (float64 (float_sum (latencies rs) / float64 (real (length rs)))))
   \<and> stats_queries_under_50ms (get_stats (record_all rs))
        = length (filter (\<lambda>t. t < 50) (latencies rs))
   \<and> (total_queries m = 0 \<longrightarrow>
        average_search_time_ms (get_stats m) = 0 \<and> sub_50ms_rate (get_stats m) = 0
        \<and> sub_200ms_rate (get_stats m) = 0)"
  using counters_record_all [of rs]
  by (simp add: get_stats_def Let_def py_round2_zero)

theorem get_stats_average_rounded_witness:
  "[(''a'', 1, False, ''t1''), (''b'', 50, False, ''t2''), (''c'', 2, True, ''t3'')] \<noteq> ([] :: recorded list)
   \<and> average_search_time_ms (get_stats (record_all
         [(''a'', 1, False, ''t1''), (''b'', 50, False, ''t2''), (''c'', 2, True, ''t3'')]))
       = py_round2 (float64 (float_sum (latencies
         [(''a'', 1, False, ''t1''), (''b'', 50, False, ''t2''), (''c'', 2, True, ''t3'')]) / float64 (real (length
         ([(''a'', 1, False, ''t1''), (''b'', 50, False, ''t2''), (''c'', 2, True, ''t3'')] :: recorded list)))))
   \<and> stats_queries_under_50ms (get_stats (record_all
         [(''a'', 1, False, ''t1''), (''b'', 50, False, ''t2''), (''c'', 2, True, ''t3'')])) = 2
   \<and> total_queries MetricsTracker_init = 0
   \<and> average_search_time_ms (get_stats MetricsTracker_init) = 0
   \<and> sub_50ms_rate (get_stats MetricsTracker_init) = 0
   \<and> sub_200ms_rate (get_stats MetricsTracker_init) = 0"
proof -
  let ?rs = "[(''a'', 1, False, ''t1''), (''b'', 50, False, ''t2''), (''c'', 2, True, ''t3'')] :: recorded list"
  have h1: "?rs \<noteq> []" by simp
  have h2: "total_queries MetricsTracker_init = 0" by (simp add: MetricsTracker_init_def)
  have c: "length (filter (\<lambda>t. t < 50) (latencies ?rs)) = 2" by (simp add: latencies_def)
  note t = get_stats_average_rounded [of ?rs MetricsTracker_init]
  from t h1 have a: "average_search_time_ms (get_stats (record_all ?rs))
      = py_round2 (float64 (float_sum (latencies ?rs) / float64 (real (length ?rs))))" by blast
  from t c have b: "stats_queries_under_50ms (get_stats (record_all ?rs)) = 2" by simp
  from t h2 have z: "average_search_time_ms (get_stats MetricsTracker_init) = 0
      \<and> sub_50ms_rate (get_stats MetricsTracker_init) = 0
      \<and> sub_200ms_rate (get_stats MetricsTracker_init) = 0" by blast
  from h1 a b h2 z show ?thesis by blast
qed

text \<open>
  Claim C6 with the exact quotient fails: for the latencies 1, 1 and 2 the float quotient
  is the float next to 4/3 and the reported average is the float next to 1.33.
\<close>

theorem get_stats_average_not_exact:
  "average_search_time_ms (get_stats (record_all
       [(''a'', 1, False, ''t1''), (''b'', 1, False, ''t2''), (''c'', 2, True, ''t3'')])) = 5989787504402760 / 2 ^ 52
   \<and> float64 (float_sum (latencies [(''a'', 1, False, ''t1''), (''b'', 1, False, ''t2''), (''c'', 2, True, ''t3'')])
       / float64 (real (length ([(''a'', 1, False, ''t1''), (''b'', 1, False, ''t2''), (''c'', 2, True, ''t3'')] :: recorded list))))
     = 6004799503160661 / 2 ^ 52
   \<and> sum_list (latencies [(''a'', 1, False, ''t1''), (''b'', 1, False, ''t2''), (''c'', 2, True, ''t3'')])
       / real (length ([(''a'', 1, False, ''t1''), (''b'', 1, False, ''t2''), (''c'', 2, True, ''t3'')] :: recorded list))
     = 4 / 3
   \<and> (5989787504402760 / 2 ^ 52 :: real) \<noteq> 6004799503160661 / 2 ^ 52
   \<and> (5989787504402760 / 2 ^ 52 :: real) \<noteq> 4 / 3"
proof -
  let ?rs = "[(''a'', 1, False, ''t1''), (''b'', 1, False, ''t2''), (''c'', 2, True, ''t3'')] :: recorded list"
  have "average_search_time_ms (get_stats (record_all ?rs)) = 5989787504402760 / 2 ^ 52
    \<and> float64 (float_sum (latencies ?rs) / float64 (real (length ?rs))) = 6004799503160661 / 2 ^ 52"
  proof (rule average_value [where ts = "[1, 1, 2]" and s = 4 and n = 3 and d = 3])
    show "latencies ?rs = [1, 1, 2]" by (simp add: latencies_def)
    show "float_sum [1, 1, 2] = 4" by (simp add: float_sum_def float_eval)
    show "length ?rs = 3" and "0 < (3::nat)" by simp_all
    show "float64 (real (3::nat)) = 3" by (simp add: float_eval)
    show "float64 (4 / 3) = 6004799503160661 / 2 ^ 52" by (simp add: float_eval)
    show "py_round2 (6004799503160661 / 2 ^ 52) = 5989787504402760 / 2 ^ 52"
      by (simp add: py_round2_def float_eval)
  qed
  moreover have "sum_list (latencies ?rs) / real (length ?rs) = 4 / 3"
    by (simp add: latencies_def)
  moreover have "(5989787504402760 / 2 ^ 52 :: real) \<noteq> 6004799503160661 / 2 ^ 52"
    and "(5989787504402760 / 2 ^ 52 :: real) \<noteq> 4 / 3" by simp_all
  ultimately show ?thesis by blast
qed

text \<open>
  Float division decides a near tie: for four latencies of 1/8 and one of 3/8 the exact
  average is 0.175, the float quotient lies below it, and the reported average is the
  float next to 0.17, not the one next to 0.18.
\<close>

lemma get_stats_average_below_tie:
  "average_search_time_ms (get_stats (record_all
      [(''a'', 1 / 8, False, ''t1''), (''b'', 1 / 8, False, ''t2''), (''c'', 1 / 8, True, ''t3''),
       (''d'', 1 / 8, True, ''t4''), (''e'', 3 / 8, False, ''t5'')]))
     = 6124895493223875 / 2 ^ 55
   \<and> float64 (17 / 100) = 6124895493223875 / 2 ^ 55
   \<and> float64 (18 / 100) = 6485183463413514 / 2 ^ 55"
proof -
  let ?rs = "[(''a'', 1 / 8, False, ''t1''), (''b'', 1 / 8, False, ''t2''), (''c'', 1 / 8, True, ''t3''),
       (''d'', 1 / 8, True, ''t4''), (''e'', 3 / 8, False, ''t5'')] :: recorded list"
  have "average_search_time_ms (get_stats (record_all ?rs)) = 6124895493223875 / 2 ^ 55
    \<and> float64 (float_sum (latencies ?rs) / float64 (real (length ?rs))) = 6305039478318694 / 2 ^ 55"
  proof (rule average_value [where ts = "[1 / 8, 1 / 8, 1 / 8, 1 / 8, 3 / 8]" and s = "7 / 8"
        and n = 5 and d = 5])
    show "latencies ?rs = [1 / 8, 1 / 8, 1 / 8, 1 / 8, 3 / 8]" by (simp add: latencies_def)
    show "float_sum [1 / 8, 1 / 8, 1 / 8, 1 / 8, 3 / 8] = 7 / 8"
      by (simp add: float_sum_def float_eval)
    show "length ?rs = 5" and "0 < (5::nat)" by simp_all
    show "float64 (real (5::nat)) = 5" by (simp add: float_eval)
    show "float64 (7 / 8 / 5) = 6305039478318694 / 2 ^ 55" by (simp add: float_eval)
    show "py_round2 (6305039478318694 / 2 ^ 55) = 6124895493223875 / 2 ^ 55"
      by (simp add: py_round2_def float_eval)
  qed
  moreover have "float64 (17 / 100) = 6124895493223875 / 2 ^ 55" by (simp add: float_eval)
  moreover have "float64 (18 / 100) = 6485183463413514 / 2 ^ 55" by (simp add: float_eval)
  ultimately show ?thesis by blast
qed

section \<open>Proofs: chunking\<close>






lemma split_nl_example: "split_nl [CHR ''a'', newline, newline, CHR ''b'', newline] = [''a'', [], ''b'', []]"
  by (simp add: newline_def)







section \<open>Proofs: search and persistence\<close>


subsection \<open>The entry that put stores\<close>

lemma setitem_last:
  "k \<notin> fst ` set xs \<Longrightarrow> od_setitem k v (xs @ [(k, w)]) = xs @ [(k, v)]"
  by (induction xs) auto

lemma filter_absent: "k \<notin> fst ` set d \<Longrightarrow> filter (\<lambda>kv. fst kv \<noteq> k) d = d"
  by (induction d) auto

lemma put_cache_eq:
  "cache (put k v c) =
     (if capacity c < Suc (length (filter (\<lambda>kv. fst kv \<noteq> k) (cache c)))
      then tl (filter (\<lambda>kv. fst kv \<noteq> k) (cache c) @ [(k, v)])
      else filter (\<lambda>kv. fst kv \<noteq> k) (cache c) @ [(k, v)])"
proof (cases "map_of (cache c) k")
  case None
  then have a: "k \<notin> fst ` set (cache c)" by (simp add: map_of_eq_None_iff)
  then have "od_setitem k v (cache c) = cache c @ [(k, v)]"
    by (simp add: setitem_new od_keys_def)
  with a show ?thesis
    by (simp add: put_def Let_def od_keys_def filter_absent popitem_first_tl)
next
  case (Some w)
  then have a: "k \<in> fst ` set (cache c)" by (metis map_of_eq_None_iff option.distinct(1))
  have "k \<notin> fst ` set (filter (\<lambda>kv. fst kv \<noteq> k) (cache c))" by auto
  then have "od_setitem k v (filter (\<lambda>kv. fst kv \<noteq> k) (cache c) @ [(k, w)])
      = filter (\<lambda>kv. fst kv \<noteq> k) (cache c) @ [(k, v)]"
    by (rule setitem_last)
  with a Some show ?thesis
    by (simp add: put_def Let_def od_keys_def od_move_to_end_def popitem_first_tl)
qed

lemma map_of_snoc_new: "k \<notin> fst ` set xs \<Longrightarrow> map_of (xs @ [(k, v)]) k = Some v"
  by (induction xs) auto

lemma map_of_put:
  assumes "0 < capacity c"
  shows "map_of (cache (put k v c)) k = Some v"
proof -
  let ?xs = "filter (\<lambda>kv. fst kv \<noteq> k) (cache c)"
  have n: "k \<notin> fst ` set ?xs" by auto
  show ?thesis
  proof (cases "capacity c < Suc (length ?xs)")
    case False
    have "map_of (?xs @ [(k, v)]) k = Some v" using n by (rule map_of_snoc_new)
    with False show ?thesis by (simp only: put_cache_eq if_False)
  next
    case True
    with assms obtain x xs' where x: "?xs = x # xs'" by (cases ?xs) auto
    have "set xs' \<subseteq> set ?xs" unfolding x by (rule set_subset_Cons)
    with n have "k \<notin> fst ` set xs'" by blast
    then have "map_of (xs' @ [(k, v)]) k = Some v" by (rule map_of_snoc_new)
    moreover have "tl (?xs @ [(k, v)]) = xs' @ [(k, v)]" using x by simp
    ultimately show ?thesis using True by (simp only: put_cache_eq if_True)
  qed
qed

lemma map_of_after_get:
  assumes "map_of (cache c) k = Some v"
  shows "fst (get k c) = Some v \<and> map_of (cache (snd (get k c))) k = Some v"
proof -
  have "k \<notin> fst ` set (filter (\<lambda>kv. fst kv \<noteq> k) (cache c))" by auto
  then have "map_of (filter (\<lambda>kv. fst kv \<noteq> k) (cache c) @ [(k, v)]) k = Some v"
    by (rule map_of_snoc_new)
  with assms show ?thesis by (simp add: get_def od_move_to_end_def del: map_of_append)
qed

lemma get_miss: "fst (get k c) = None \<longleftrightarrow> map_of (cache c) k = None"
  by (simp add: get_def split: option.splits)

lemma capacity_get [simp]: "capacity (snd (get k c)) = capacity c"
  by (simp add: get_def split: option.splits)

lemma capacity_put [simp]: "capacity (put k v c) = capacity c"
  by (simp add: put_def Let_def)


lemma fst_get: "fst (get k c) = map_of (cache c) k"
  by (simp add: get_def split: option.splits)

subsection \<open>The paths of search\<close>

lemma search_not_ready:
  "faiss_index e = None \<Longrightarrow> search md5 clk q k e = (Inr ([], 0, False), e)"
  by (simp add: search_def)

lemma search_hit:
  assumes "faiss_index e = Some ix"
    and "map_of (cache (engine_cache e)) (cache_key md5 q k) = Some entry"
  shows "search md5 clk q k e =
     (Inr (results entry, search_time entry, True),
      e\<lparr>engine_cache := snd (get (cache_key md5 q k) (engine_cache e)),
        metrics := record_query q (search_time entry) True (now_iso clk) (metrics e)\<rparr>)"
  using assms by (simp add: search_def Let_def fst_get)

lemma search_miss:
  assumes "faiss_index e = Some ix"
    and "map_of (cache (engine_cache e)) (cache_key md5 q k) = None"
    and "search md5 clk q k e = (Inr (rs, t, fc), e1)"
  shows "fc = False \<and> t = float64 (float64 (time_end clk - time_start clk) * 1000)
    \<and> (\<exists>emb ds is i0 d0. model e [q] = Inr emb \<and> ix emb k = Inr (ds, is)
          \<and> py_getitem is 0 = Inr i0 \<and> py_getitem ds 0 = Inr d0
          \<and> format_results (code_snippets e) (zip i0 d0) [] = Inr rs)
    \<and> e1 = e\<lparr>engine_cache := put (cache_key md5 q k) \<lparr>results = rs, search_time = t\<rparr>
                  (snd (get (cache_key md5 q k) (engine_cache e))),
              metrics := record_query q t False (now_iso clk) (metrics e)\<rparr>"
  using assms
  by (auto simp: search_def Let_def fst_get split: sum.splits prod.splits)

lemma search_returns:
  assumes "faiss_index e = Some ix" and "search md5 clk q k e = (Inr (rs, t, fc), e1)"
  shows "faiss_index e1 = Some ix
    \<and> capacity (engine_cache e1) = capacity (engine_cache e)
    \<and> code_snippets e1 = code_snippets e
    \<and> metrics e1 = record_query q t fc (now_iso clk) (metrics e)
    \<and> (0 < capacity (engine_cache e) \<longrightarrow>
         map_of (cache (engine_cache e1)) (cache_key md5 q k) = Some \<lparr>results = rs, search_time = t\<rparr>)"
proof (cases "map_of (cache (engine_cache e)) (cache_key md5 q k)")
  case None
  from search_miss [OF assms(1) None assms(2)]
  have fc: "fc = False"
    and e1: "e1 = e\<lparr>engine_cache := put (cache_key md5 q k) \<lparr>results = rs, search_time = t\<rparr>
                  (snd (get (cache_key md5 q k) (engine_cache e))),
              metrics := record_query q t False (now_iso clk) (metrics e)\<rparr>"
    by blast+
  show ?thesis using assms(1) fc by (simp add: e1 map_of_put)
next
  case (Some entry)
  from search_hit [OF assms(1) Some, of clk] assms(2)
  have r: "rs = results entry" "t = search_time entry" "fc = True"
    and e1: "e1 = e\<lparr>engine_cache := snd (get (cache_key md5 q k) (engine_cache e)),
        metrics := record_query q (search_time entry) True (now_iso clk) (metrics e)\<rparr>"
    by simp_all
  have "\<lparr>results = rs, search_time = t\<rparr> = entry" using r by simp
  then show ?thesis
    using assms(1) r map_of_after_get [OF Some] by (simp add: e1)
qed

text \<open>
  Claim C1, as the code has it. On an engine whose index is built and whose cache can hold
  an entry (the engine's capacity is 1000), if \<open>search(q, top_k)\<close> returns the results
  \<open>rs\<close> and the time \<open>t\<close>, then the next call with the same arguments, at any later
  clock readings, returns the same \<open>rs\<close>, the same \<open>t\<close> and \<open>from_cache = True\<close>.
\<close>

theorem search_twice_cached:
  assumes "faiss_index e \<noteq> None" and "0 < capacity (engine_cache e)"
    and "search md5 clk1 q top_k e = (Inr (rs, t, fc), e1)"
  shows "fst (search md5 clk2 q top_k e1) = Inr (rs, t, True)"
proof -
  from assms(1) obtain ix where ix: "faiss_index e = Some ix" by auto
  from search_returns [OF ix assms(3)] assms(2)
  have "faiss_index e1 = Some ix"
    and "map_of (cache (engine_cache e1)) (cache_key md5 q top_k) = Some \<lparr>results = rs, search_time = t\<rparr>"
    by blast+
  then show ?thesis by (simp add: search_hit)
qed

text \<open>
  Claim C3, as the code has it. On an engine whose index is built, a call of \<open>search\<close>
  that returns has applied \<open>record_query\<close> exactly once, to the query, the returned time
  and the returned cache flag; \<open>total_queries\<close> has grown by one, on a hit and on a miss.
\<close>

theorem search_records_once:
  assumes "faiss_index e \<noteq> None"
    and "search md5 clk q top_k e = (Inr (rs, t, fc), e1)"
  shows "metrics e1 = record_query q t fc (now_iso clk) (metrics e)
    \<and> total_queries (metrics e1) = total_queries (metrics e) + 1
    \<and> length (query_history (metrics e1)) \<le> length (query_history (metrics e)) + 1"
proof -
  from assms(1) obtain ix where ix: "faiss_index e = Some ix" by auto
  from search_returns [OF ix assms(2)]
  have m: "metrics e1 = record_query q t fc (now_iso clk) (metrics e)" by blast
  then show ?thesis by (simp add: record_query_def Let_def)
qed


subsection \<open>The formatting loop\<close>

lemma format_results_scores:
  "format_results snippets cands acc = Inr rs \<Longrightarrow>
   map similarity_score rs
     = map similarity_score acc
       @ map (\<lambda>c. similarity (snd c)) (filter (\<lambda>c. fst c < int (length snippets)) cands)"
proof (induction snippets cands acc rule: format_results.induct)
  case (1 snippets acc)
  then show ?case by simp
next
  case (2 snippets idx distance rest acc)
  show ?case
  proof (cases "idx < int (length snippets)")
    case False
    with 2 show ?thesis by simp
  next
    case True
    with "2.prems" obtain snippet where g: "py_getitem snippets idx = Inr snippet"
      by (cases "py_getitem snippets idx") auto
    with True "2.prems" "2.IH"(1) [OF True g] show ?thesis by simp
  qed
qed

lemma float32_mono: "0 < x \<Longrightarrow> x \<le> y \<Longrightarrow> float32 x \<le> float32 y"
  unfolding float32_def by (rule round_to_mono) simp_all

lemma float32_one: "float32 1 = 1"
  by (simp add: float_eval)

lemma float32_max_succ: "float32 (1 + float32_max) = float32_max"
  by (simp add: float32_max_def float_eval)

lemma float32_max_inverse: "float32 (1 / float32_max) = 1 / 2 ^ 128"
  by (simp add: float32_max_def float_eval)

lemma float32_succ_ge_one:
  assumes "0 \<le> d"
  shows "1 \<le> float32 (1 + d)"
proof -
  have "float32 1 \<le> float32 (1 + d)" using assms by (intro float32_mono) simp_all
  then show ?thesis by (simp add: float32_one)
qed

lemma similarity_le_one:
  assumes "0 \<le> d"
  shows "similarity d \<le> 1"
proof -
  have a: "1 \<le> float32 (1 + d)" using assms by (rule float32_succ_ge_one)
  then have "0 < 1 / float32 (1 + d)" and "1 / float32 (1 + d) \<le> 1" by simp_all
  then have "float32 (1 / float32 (1 + d)) \<le> float32 1" by (rule float32_mono)
  then show ?thesis by (simp add: similarity_def float32_one)
qed

lemma similarity_pos:
  assumes "0 \<le> d" and "d \<le> float32_max"
  shows "0 < similarity d"
proof -
  have a: "1 \<le> float32 (1 + d)" using assms(1) by (rule float32_succ_ge_one)
  have "float32 (1 + d) \<le> float32 (1 + float32_max)"
    using assms by (intro float32_mono) simp_all
  then have b: "float32 (1 + d) \<le> float32_max" by (simp add: float32_max_succ)
  have m: "0 < float32_max" by (simp add: float32_max_def)
  from a b have "1 / float32_max \<le> 1 / float32 (1 + d)"
    by (intro divide_left_mono) simp_all
  moreover have "0 < 1 / float32_max" using m by simp
  ultimately have "float32 (1 / float32_max) \<le> float32 (1 / float32 (1 + d))"
    by (intro float32_mono)
  then have "1 / 2 ^ 128 \<le> similarity d"
    by (simp add: similarity_def float32_max_inverse)
  moreover have "(0::real) < 1 / 2 ^ 128" by simp
  ultimately show ?thesis by linarith
qed

lemma similarity_antimono:
  assumes "0 \<le> d1" and "d1 \<le> d2"
  shows "similarity d2 \<le> similarity d1"
proof -
  have a1: "1 \<le> float32 (1 + d1)" using assms(1) by (rule float32_succ_ge_one)
  have a2: "1 \<le> float32 (1 + d2)" using assms by (intro float32_succ_ge_one) simp
  have "float32 (1 + d1) \<le> float32 (1 + d2)" using assms by (intro float32_mono) simp_all
  with a1 have "1 / float32 (1 + d2) \<le> 1 / float32 (1 + d1)"
    by (intro divide_left_mono) simp_all
  moreover have "0 < 1 / float32 (1 + d2)" using a2 by simp
  ultimately have "float32 (1 / float32 (1 + d2)) \<le> float32 (1 / float32 (1 + d1))"
    by (intro float32_mono)
  then show ?thesis by (simp add: similarity_def)
qed

lemma search_miss_scores:
  assumes "faiss_index e = Some ix"
    and "map_of (cache (engine_cache e)) (cache_key md5 q k) = None"
    and "search md5 clk q k e = (Inr (rs, t, fc), e1)"
  shows "\<exists>i0 d0. (\<exists>emb ds is. model e [q] = Inr emb \<and> ix emb k = Inr (ds, is)
            \<and> py_getitem is 0 = Inr i0 \<and> py_getitem ds 0 = Inr d0)
        \<and> map similarity_score rs
            = map (\<lambda>c. similarity (snd c))
                (filter (\<lambda>c. fst c < int (length (code_snippets e))) (zip i0 d0))"
proof -
  from search_miss [OF assms] obtain emb ds "is" i0 d0
    where "model e [q] = Inr emb" and "ix emb k = Inr (ds, is)"
      and "py_getitem is 0 = Inr i0" and "py_getitem ds 0 = Inr d0"
      and f: "format_results (code_snippets e) (zip i0 d0) [] = Inr rs"
    by blast
  moreover from format_results_scores [OF f]
  have "map similarity_score rs
      = map (\<lambda>c. similarity (snd c))
          (filter (\<lambda>c. fst c < int (length (code_snippets e))) (zip i0 d0))"
    by simp
  ultimately show ?thesis by blast
qed

text \<open>
  Claim C8, as the code has it. The score of a distance \<open>d\<close> is \<open>1 / (1 + d)\<close> in float32
  arithmetic: 1 at distance 0, one half at distance 1, at most 1 for \<open>d \<ge> 0\<close>, above 0 up
  to the largest float32, and never larger at a larger distance. The results of the
  formatting loop carry, in order, the scores of the candidates that pass the test
  \<open>idx < len(self.code_snippets)\<close>, and so do the results of a \<open>search\<close> that misses the
  cache, for the first rows of what the index returned.
\<close>

theorem similarity_score_of_distance:
  "similarity 0 = 1 \<and> similarity 1 = 1 / 2
   \<and> (0 \<le> d \<longrightarrow> similarity d = float32 (1 / float32 (1 + d)) \<and> similarity d \<le> 1)
   \<and> (0 \<le> d \<and> d \<le> float32_max \<longrightarrow> 0 < similarity d)
   \<and> (0 \<le> d1 \<and> d1 \<le> d2 \<longrightarrow> similarity d2 \<le> similarity d1)
   \<and> (format_results snippets cands [] = Inr rs \<longrightarrow>
        map similarity_score rs
          = map (\<lambda>c. similarity (snd c)) (filter (\<lambda>c. fst c < int (length snippets)) cands))
   \<and> (faiss_index e = Some ix \<and> map_of (cache (engine_cache e)) (cache_key md5 q k) = None
        \<and> search md5 clk q k e = (Inr (rs', t, fc), e1) \<longrightarrow>
        (\<exists>i0 d0. (\<exists>emb ds is. model e [q] = Inr emb \<and> ix emb k = Inr (ds, is)
            \<and> py_getitem is 0 = Inr i0 \<and> py_getitem ds 0 = Inr d0)
          \<and> map similarity_score rs'
              = map (\<lambda>c. similarity (snd c))
                  (filter (\<lambda>c. fst c < int (length (code_snippets e))) (zip i0 d0))))"
proof (intro conjI impI)
  show "similarity 0 = 1" and "similarity 1 = 1 / 2" by (simp_all add: similarity_def float_eval)
  show "similarity d = float32 (1 / float32 (1 + d))" by (simp add: similarity_def)
  show "similarity d \<le> 1" if "0 \<le> d" using that by (rule similarity_le_one)
  show "0 < similarity d" if "0 \<le> d \<and> d \<le> float32_max"
    using that similarity_pos by blast
  show "similarity d2 \<le> similarity d1" if "0 \<le> d1 \<and> d1 \<le> d2"
    using that similarity_antimono by blast
  show "map similarity_score rs
          = map (\<lambda>c. similarity (snd c)) (filter (\<lambda>c. fst c < int (length snippets)) cands)"
    if "format_results snippets cands [] = Inr rs"
    using format_results_scores [OF that] by simp
  show "\<exists>i0 d0. (\<exists>emb ds is. model e [q] = Inr emb \<and> ix emb k = Inr (ds, is)
            \<and> py_getitem is 0 = Inr i0 \<and> py_getitem ds 0 = Inr d0)
          \<and> map similarity_score rs'
              = map (\<lambda>c. similarity (snd c))
                  (filter (\<lambda>c. fst c < int (length (code_snippets e))) (zip i0 d0))"
    if "faiss_index e = Some ix \<and> map_of (cache (engine_cache e)) (cache_key md5 q k) = None
        \<and> search md5 clk q k e = (Inr (rs', t, fc), e1)"
    using that search_miss_scores by blast
qed

text \<open>
  Claim C8 with the exact quotient and a strict decrease fails: the float32 distances
  \<open>7205759 / 2 ^ 56\<close> and \<open>7205759 / 2 ^ 54\<close>, about 1e-10 and 4e-10, both have the score 1.
\<close>

theorem similarity_not_strict:
  "similarity (7205759 / 2 ^ 56) = 1 \<and> similarity (7205759 / 2 ^ 54) = 1
   \<and> (0 :: real) \<le> 7205759 / 2 ^ 56 \<and> (7205759 / 2 ^ 56 :: real) < 7205759 / 2 ^ 54
   \<and> float32 (7205759 / 2 ^ 56) = 7205759 / 2 ^ 56
   \<and> float32 (7205759 / 2 ^ 54) = 7205759 / 2 ^ 54
   \<and> \<not> similarity (7205759 / 2 ^ 54) < similarity (7205759 / 2 ^ 56)
   \<and> similarity (7205759 / 2 ^ 56) \<noteq> 1 / (1 + 7205759 / 2 ^ 56)"
proof -
  have a: "similarity (7205759 / 2 ^ 56) = 1" by (simp add: similarity_def float_eval)
  have b: "similarity (7205759 / 2 ^ 54) = 1" by (simp add: similarity_def float_eval)
  have c: "float32 (7205759 / 2 ^ 56) = 7205759 / 2 ^ 56" by (simp add: float_eval)
  have d: "float32 (7205759 / 2 ^ 54) = 7205759 / 2 ^ 54" by (simp add: float_eval)
  have e: "(0 :: real) \<le> 7205759 / 2 ^ 56 \<and> (7205759 / 2 ^ 56 :: real) < 7205759 / 2 ^ 54"
    by simp
  have f: "(1 :: real) \<noteq> 1 / (1 + 7205759 / 2 ^ 56)" by simp
  from a b c d e f show ?thesis by simp
qed

lemma example_results:
  "fst (search example_digest example_clock ''q'' 2 example_engine)
    = Inr ([\<lparr>file = ''repo/a.py'', repo = ''repo'', content = ''x = 1'', line_start = 1, line_end = 1,
              similarity_score = 1\<rparr>,
            \<lparr>file = ''repo/a.py'', repo = ''repo'', content = ''x = 1'', line_start = 1, line_end = 1,
              similarity_score = 1 / 2 ^ 128\<rparr>], 250, False)"
  by (simp add: search_def example_engine_def CodeSearchEngine_init_def LRUCache_init_def get_def
      example_model_def example_index_def example_snippet_def example_clock_def
      py_getitem_def similarity_def float_eval)

lemma example_built:
  "faiss_index example_engine \<noteq> None \<and> 0 < capacity (engine_cache example_engine)"
  by (simp add: example_engine_def CodeSearchEngine_init_def LRUCache_init_def)

lemma example_metrics: "metrics example_engine = MetricsTracker_init"
  by (simp add: example_engine_def CodeSearchEngine_init_def)

lemma example_fresh_cache:
  "faiss_index example_engine = Some example_index
   \<and> map_of (cache (engine_cache example_engine)) (cache_key example_digest ''q'' 2) = None"
  by (simp add: example_engine_def CodeSearchEngine_init_def LRUCache_init_def)

theorem similarity_score_of_distance_witness:
  "(0::real) \<le> 1 \<and> (1::real) \<le> float32_max
   \<and> similarity 1 = float32 (1 / float32 (1 + 1)) \<and> 0 < similarity 1 \<and> similarity 1 \<le> 1
   \<and> (0::real) \<le> 0 \<and> similarity 1 \<le> similarity 0
   \<and> format_results [example_snippet] [(0, 1), (5, 3)] []
       = Inr [\<lparr>file = ''repo/a.py'', repo = ''repo'', content = ''x = 1'', line_start = 1,
               line_end = 1, similarity_score = 1 / 2\<rparr>]
   \<and> map similarity_score
         [\<lparr>file = ''repo/a.py'', repo = ''repo'', content = ''x = 1'', line_start = 1,
               line_end = 1, similarity_score = 1 / 2\<rparr>]
       = map (\<lambda>c. similarity (snd c)) (filter (\<lambda>c. fst c < int (length [example_snippet])) [(0, 1), (5, 3)])
   \<and> faiss_index example_engine = Some example_index
   \<and> map_of (cache (engine_cache example_engine)) (cache_key example_digest ''q'' 2) = None
   \<and> fst (search example_digest example_clock ''q'' 2 example_engine)
       = Inr ([\<lparr>file = ''repo/a.py'', repo = ''repo'', content = ''x = 1'', line_start = 1,
                 line_end = 1, similarity_score = 1\<rparr>,
               \<lparr>file = ''repo/a.py'', repo = ''repo'', content = ''x = 1'', line_start = 1,
                 line_end = 1, similarity_score = 1 / 2 ^ 128\<rparr>],
              250, False)"
proof -
  let ?r = "\<lparr>file = ''repo/a.py'', repo = ''repo'', content = ''x = 1'', line_start = 1,
               line_end = 1, similarity_score = 1 / 2\<rparr>"
  let ?rs = "[\<lparr>file = ''repo/a.py'', repo = ''repo'', content = ''x = 1'', line_start = 1,
                 line_end = 1, similarity_score = 1\<rparr>,
               \<lparr>file = ''repo/a.py'', repo = ''repo'', content = ''x = 1'', line_start = 1,
                 line_end = 1, similarity_score = 1 / 2 ^ 128\<rparr>]"
  let ?first = "search example_digest example_clock ''q'' 2 example_engine"
  have h1: "(0::real) \<le> 1" and h1': "(1::real) \<le> float32_max"
    and h2: "(0::real) \<le> 0 \<and> (0::real) \<le> 1" by (simp_all add: float32_max_def)
  have h3: "format_results [example_snippet] [(0, 1), (5, 3)] [] = Inr [?r]"
    by (simp add: example_snippet_def py_getitem_def similarity_def float_eval)
  have h4: "faiss_index example_engine = Some example_index"
    and h5: "map_of (cache (engine_cache example_engine)) (cache_key example_digest ''q'' 2) = None"
    using example_fresh_cache by blast+
  have f: "fst ?first = Inr (?rs, 250, False)" by (rule example_results)
  then have h6: "?first = (Inr (?rs, 250, False), snd ?first)" by (metis prod.collapse)
  note t = similarity_score_of_distance [of 1 0 1 "[example_snippet]" "[(0, 1), (5, 3)]" "[?r]"
      example_engine example_index example_digest "''q''" 2 example_clock ?rs 250 False "snd ?first"]
  from t h1 h1' have a: "similarity 1 = float32 (1 / float32 (1 + 1)) \<and> 0 < similarity 1
      \<and> similarity 1 \<le> 1" by blast
  from t h2 have b: "similarity 1 \<le> similarity 0" by blast
  from t h3 have c: "map similarity_score [?r]
       = map (\<lambda>c. similarity (snd c)) (filter (\<lambda>c. fst c < int (length [example_snippet])) [(0, 1), (5, 3)])"
    by blast
  from t h4 h5 h6 have "\<exists>i0 d0. (\<exists>emb ds is. model example_engine [''q''] = Inr emb
            \<and> example_index emb 2 = Inr (ds, is)
            \<and> py_getitem is 0 = Inr i0 \<and> py_getitem ds 0 = Inr d0)
          \<and> map similarity_score ?rs
              = map (\<lambda>c. similarity (snd c))
                  (filter (\<lambda>c. fst c < int (length (code_snippets example_engine))) (zip i0 d0))"
    by blast
  from h1 h1' a h2 b h3 c h4 h5 f show ?thesis by blast
qed

text \<open>
  Claim C2 at the position \<open>-1\<close>. The store holds one snippet and the index pads its
  second neighbour with the label \<open>-1\<close> at the distance \<open>float32_max\<close>. The test \<open>idx < len(self.code_snippets)\<close> lets
  \<open>-1\<close> through and \<open>self.code_snippets[-1]\<close> is the last snippet, so \<open>search\<close> returns a
  second result for a position that is not in the store; on an empty store the same
  position raises \<open>IndexError\<close>.
\<close>

theorem search_negative_position:
  "length (code_snippets example_engine) = 1
   \<and> example_index [[0]] 2 = Inr ([[0, 340282346638528859811704183484516925440]], [[0, - 1]])
   \<and> fst (search example_digest example_clock ''q'' 2 example_engine)
       = Inr ([\<lparr>file = ''repo/a.py'', repo = ''repo'', content = ''x = 1'', line_start = 1,
                 line_end = 1, similarity_score = 1\<rparr>,
               \<lparr>file = ''repo/a.py'', repo = ''repo'', content = ''x = 1'', line_start = 1,
                 line_end = 1, similarity_score = 1 / 2 ^ 128\<rparr>],
              250, False)
   \<and> format_results [example_snippet] [(- 1, 1)] []
       = Inr [\<lparr>file = ''repo/a.py'', repo = ''repo'', content = ''x = 1'', line_start = 1,
                 line_end = 1, similarity_score = 1 / 2\<rparr>]
   \<and> format_results [] [(- 1, 1)] [] = Inl IndexError"
proof -
  have "length (code_snippets example_engine) = 1"
    by (simp add: example_engine_def CodeSearchEngine_init_def)
  moreover have "example_index [[0]] 2
      = Inr ([[0, 340282346638528859811704183484516925440]], [[0, - 1]])"
    by (simp add: example_index_def)
  moreover have "format_results [example_snippet] [(- 1, 1)] []
       = Inr [\<lparr>file = ''repo/a.py'', repo = ''repo'', content = ''x = 1'', line_start = 1,
                 line_end = 1, similarity_score = 1 / 2\<rparr>]"
    by (simp add: example_snippet_def py_getitem_def similarity_def float_eval)
  moreover have "format_results [] [(- 1, 1)] [] = Inl IndexError"
    by (simp add: py_getitem_def)
  ultimately show ?thesis using example_results by blast
qed

theorem search_twice_cached_witness:
  "faiss_index example_engine \<noteq> None \<and> 0 < capacity (engine_cache example_engine)
   \<and> fst (search example_digest example_clock ''q'' 2 example_engine)
       = Inr ([\<lparr>file = ''repo/a.py'', repo = ''repo'', content = ''x = 1'', line_start = 1,
                 line_end = 1, similarity_score = 1\<rparr>,
               \<lparr>file = ''repo/a.py'', repo = ''repo'', content = ''x = 1'', line_start = 1,
                 line_end = 1, similarity_score = 1 / 2 ^ 128\<rparr>],
              250, False)
   \<and> fst (search example_digest \<lparr>time_start = 7, time_end = 8, now_iso = ''later''\<rparr> ''q'' 2
          (snd (search example_digest example_clock ''q'' 2 example_engine)))
       = Inr ([\<lparr>file = ''repo/a.py'', repo = ''repo'', content = ''x = 1'', line_start = 1,
                 line_end = 1, similarity_score = 1\<rparr>,
               \<lparr>file = ''repo/a.py'', repo = ''repo'', content = ''x = 1'', line_start = 1,
                 line_end = 1, similarity_score = 1 / 2 ^ 128\<rparr>],
              250, True)"
proof -
  let ?rs = "[\<lparr>file = ''repo/a.py'', repo = ''repo'', content = ''x = 1'', line_start = 1,
                 line_end = 1, similarity_score = 1\<rparr>,
               \<lparr>file = ''repo/a.py'', repo = ''repo'', content = ''x = 1'', line_start = 1,
                 line_end = 1, similarity_score = 1 / 2 ^ 128\<rparr>]"
  let ?first = "search example_digest example_clock ''q'' 2 example_engine"
  have h1: "faiss_index example_engine \<noteq> None" and h2: "0 < capacity (engine_cache example_engine)"
    using example_built by blast+
  have f: "fst ?first = Inr (?rs, 250, False)" by (rule example_results)
  then have h3: "?first = (Inr (?rs, 250, False), snd ?first)" by (metis prod.collapse)
  from search_twice_cached [OF h1 h2 h3]
  have "fst (search example_digest \<lparr>time_start = 7, time_end = 8, now_iso = ''later''\<rparr> ''q'' 2
          (snd ?first)) = Inr (?rs, 250, True)" .
  with h1 h2 f show ?thesis by blast
qed

text \<open>
  Claim C1 without the index fails: on a fresh engine the second call is not served from
  the cache, both calls return the empty list, the time 0 and \<open>from_cache = False\<close>.
\<close>

theorem search_twice_not_ready:
  "fst (search example_digest example_clock ''q'' 1 (CodeSearchEngine_init example_model))
      = Inr ([], 0, False)
   \<and> fst (search example_digest example_clock ''q'' 1
        (snd (search example_digest example_clock ''q'' 1 (CodeSearchEngine_init example_model))))
      = Inr ([], 0, False)"
  by (simp add: search_def CodeSearchEngine_init_def)

theorem search_records_once_witness:
  "faiss_index example_engine \<noteq> None
   \<and> fst (search example_digest example_clock ''q'' 2 example_engine)
       = Inr ([\<lparr>file = ''repo/a.py'', repo = ''repo'', content = ''x = 1'', line_start = 1,
                 line_end = 1, similarity_score = 1\<rparr>,
               \<lparr>file = ''repo/a.py'', repo = ''repo'', content = ''x = 1'', line_start = 1,
                 line_end = 1, similarity_score = 1 / 2 ^ 128\<rparr>],
              250, False)
   \<and> metrics (snd (search example_digest example_clock ''q'' 2 example_engine))
       = record_query ''q'' 250 False (now_iso example_clock) (metrics example_engine)
   \<and> total_queries (metrics (snd (search example_digest example_clock ''q'' 2 example_engine)))
       = total_queries (metrics example_engine) + 1
   \<and> total_queries (metrics (snd (search example_digest example_clock ''q'' 2 example_engine))) = 1"
proof -
  let ?rs = "[\<lparr>file = ''repo/a.py'', repo = ''repo'', content = ''x = 1'', line_start = 1,
                 line_end = 1, similarity_score = 1\<rparr>,
               \<lparr>file = ''repo/a.py'', repo = ''repo'', content = ''x = 1'', line_start = 1,
                 line_end = 1, similarity_score = 1 / 2 ^ 128\<rparr>]"
  let ?first = "search example_digest example_clock ''q'' 2 example_engine"
  have h1: "faiss_index example_engine \<noteq> None" using example_built by blast
  have f: "fst ?first = Inr (?rs, 250, False)" by (rule example_results)
  then have h2: "?first = (Inr (?rs, 250, False), snd ?first)" by (metis prod.collapse)
  note t = search_records_once [OF h1 h2]
  from t have a: "metrics (snd ?first)
      = record_query ''q'' 250 False (now_iso example_clock) (metrics example_engine)" by blast
  from t have b: "total_queries (metrics (snd ?first)) = total_queries (metrics example_engine) + 1"
    by blast
  then have c: "total_queries (metrics (snd ?first)) = 1"
    by (simp add: example_metrics MetricsTracker_init_def)
  from h1 f a b c show ?thesis by blast
qed

text \<open>
  Claim C3 without the index fails: on a fresh engine \<open>search\<close> returns and records
  nothing.
\<close>

theorem search_not_ready_unrecorded:
  "faiss_index (CodeSearchEngine_init example_model) = None
   \<and> fst (search example_digest example_clock ''q'' 1 (CodeSearchEngine_init example_model))
      = Inr ([], 0, False)
   \<and> total_queries (metrics
        (snd (search example_digest example_clock ''q'' 1 (CodeSearchEngine_init example_model))))
      = total_queries (metrics (CodeSearchEngine_init example_model))
   \<and> query_history (metrics
        (snd (search example_digest example_clock ''q'' 1 (CodeSearchEngine_init example_model))))
      = []"
  by (simp add: search_def CodeSearchEngine_init_def MetricsTracker_init_def)

subsection \<open>Persistence\<close>

lemma snippet_of_json_of_snippet: "snippet_of_json (json_of_snippet s) = Inr s"
  by (simp add: snippet_of_json_def json_of_snippet_def field_str_def field_int_def
      json_getitem_def as_str_def as_int_def)

lemma snippets_of_json_map: "snippets_of_json (map json_of_snippet ss) = Inr ss"
  by (induction ss) (simp_all add: snippet_of_json_of_snippet)

text \<open>
  Claim C9. For an engine with a built index and any state of the index directory,
  \<open>save_index\<close> succeeds, and \<open>load_index\<close> on a fresh engine then returns \<open>True\<close> with
  the same snippets, in order and field by field, and the same three totals.
\<close>

theorem save_load_roundtrip:
  assumes "faiss_index e \<noteq> None"
  shows "fst (save_index e dir) = Inr ()
    \<and> fst (load_index (CodeSearchEngine_init m) (snd (save_index e dir))) = Inr True
    \<and> code_snippets (snd (load_index (CodeSearchEngine_init m) (snd (save_index e dir))))
        = code_snippets e
    \<and> total_files_indexed (snd (load_index (CodeSearchEngine_init m) (snd (save_index e dir))))
        = total_files_indexed e
    \<and> total_lines_indexed (snd (load_index (CodeSearchEngine_init m) (snd (save_index e dir))))
        = total_lines_indexed e
    \<and> total_repositories (snd (load_index (CodeSearchEngine_init m) (snd (save_index e dir))))
        = total_repositories e
    \<and> faiss_index (snd (load_index (CodeSearchEngine_init m) (snd (save_index e dir))))
        = faiss_index e"
proof -
  from assms obtain ix where ix: "faiss_index e = Some ix" by auto
  define doc where "doc = JObj
                 [(''code_snippets'', JArr (map json_of_snippet (code_snippets e))),
                  (''total_files'', JInt (total_files_indexed e)),
                  (''total_lines'', JInt (total_lines_indexed e)),
                  (''total_repositories'', JInt (total_repositories e))]"
  have s: "save_index e dir = (Inr (), dir\<lparr>code_index := Some ix, metadata_json := Some doc\<rparr>)"
    using ix by (simp add: save_index_def doc_def)
  have f1: "field_snippets doc ''code_snippets'' = Inr (code_snippets e)"
    by (simp add: field_snippets_def json_getitem_def doc_def snippets_of_json_map)
  have f2: "field_int doc ''total_files'' = Inr (total_files_indexed e)"
    by (simp add: field_int_def json_getitem_def as_int_def doc_def)
  have f3: "field_int doc ''total_lines'' = Inr (total_lines_indexed e)"
    by (simp add: field_int_def json_getitem_def as_int_def doc_def)
  have f4: "field_int doc ''total_repositories'' = Inr (total_repositories e)"
    by (simp add: field_int_def json_getitem_def as_int_def doc_def)
  show ?thesis
    by (simp add: s load_index_def Let_def f1 f2 f3 f4 ix)
qed


theorem save_load_roundtrip_witness:
  "faiss_index example_engine \<noteq> None
   \<and> fst (save_index example_engine example_dir) = Inr ()
   \<and> fst (load_index (CodeSearchEngine_init example_model)
        (snd (save_index example_engine example_dir))) = Inr True
   \<and> code_snippets (snd (load_index (CodeSearchEngine_init example_model)
        (snd (save_index example_engine example_dir)))) = [example_snippet]
   \<and> total_files_indexed (snd (load_index (CodeSearchEngine_init example_model)
        (snd (save_index example_engine example_dir)))) = 1
   \<and> total_lines_indexed (snd (load_index (CodeSearchEngine_init example_model)
        (snd (save_index example_engine example_dir)))) = 1
   \<and> total_repositories (snd (load_index (CodeSearchEngine_init example_model)
        (snd (save_index example_engine example_dir)))) = 1"
proof -
  have h: "faiss_index example_engine \<noteq> None" using example_built by blast
  have v: "code_snippets example_engine = [example_snippet]
      \<and> total_files_indexed example_engine = 1 \<and> total_lines_indexed example_engine = 1
      \<and> total_repositories example_engine = 1"
    by (simp add: example_engine_def CodeSearchEngine_init_def)
  from save_load_roundtrip [OF h, of example_dir example_model] v h
  show ?thesis by simp
qed

end
